theory Spec2Isabelle
  imports Main "HOL-Library.Sublist"
begin

section \<open>Data model\<close>

text \<open>
  The development embeds the routing core of the template: the listener bus shared by
  \<^verbatim>\<open>CorePlayer_APlayer\<close> and \<^verbatim>\<open>Core_AGameMode\<close> (addListener, removeListener, emit),
  the registry \<^verbatim>\<open>CorePlayer_APlayerManager\<close> (addPlayer, removePlayer, get, getById, tick
  and the per-event forwarders) and the router \<^verbatim>\<open>Core_AGameMode._internal\<close>.

  JavaScript objects are references. Logical players, listener objects and arrays are
  therefore addresses: a logical player is an index into \<open>objects\<close>, an array is an index
  into \<open>arrays\<close>, and a listener object is a plain identifier whose optional callbacks are
  given by the user code. \<^verbatim>\<open>push\<close> changes an array in place; \<^verbatim>\<open>filter\<close> and the
  literal \<^verbatim>\<open>[]\<close> allocate a new one.
\<close>

type_synonym lref = nat
type_synonym pref = nat
type_synonym aref = nat

text \<open>
  An engine handle \<^verbatim>\<open>mod.Player\<close> as the host presents it at the moment of the call:
  the selectors are the two host queries \<^verbatim>\<open>mod.GetObjId\<close> and \<^verbatim>\<open>mod.IsPlayerValid\<close>.
\<close>

datatype mod_Player = Player (GetObjId: int) (IsPlayerValid: bool)

text \<open>Values handed to callbacks and hooks: a logical player, \<^verbatim>\<open>undefined\<close>, or an
  opaque engine value (damage type, vehicle, trigger, ...).\<close>

datatype jsval = Undefined | LP pref | Engine nat

text \<open>The two kinds of subject that carry a listener list.\<close>

datatype target = Mode | LogicalPlayer pref

text \<open>The errors of the core: dereferencing \<^verbatim>\<open>this.playerManager\<close> while it is still
  \<^verbatim>\<open>undefined\<close>.\<close>

datatype error = TypeError

text \<open>
  The log of the run, in program order: a call of \<^verbatim>\<open>emit\<close>, the invocation of one
  listener's callback, the invocation of a protected hook, and the three writes of the
  registry (\<^verbatim>\<open>players.set\<close>, \<^verbatim>\<open>players.delete\<close>, \<^verbatim>\<open>lp.listeners = []\<close>).
\<close>

datatype obs =
    Emit target string "jsval list"
  | Callback target lref string "jsval list"
  | Hook string "jsval list"
  | MapSet int pref
  | MapDelete int
  | Detach pref

text \<open>
  User code (the body of a callback or of an overridden hook) acts on the core through
  the subscription interface only: it is a sequence of \<^verbatim>\<open>addListener\<close> and
  \<^verbatim>\<open>removeListener\<close> calls. User code that throws, that emits, or that reaches the
  registry is outside the model.
\<close>

datatype action = CallAddListener target lref | CallRemoveListener target lref

record APlayer =
  player :: mod_Player
  listeners :: aref

text \<open>
  \<open>playerManager\<close> tells whether the field of that name has been assigned; \<open>players\<close> is
  the \<^verbatim>\<open>Map\<close> of the one manager the mode creates, in insertion order (a JavaScript
  \<^verbatim>\<open>Map\<close> iterates in insertion order).
\<close>

record world =
  playerManager :: bool
  players :: "(int \<times> pref) list"
  mode_listeners :: aref
  objects :: "APlayer list"
  arrays :: "lref list list"
  trace :: "obs list"

text \<open>
  The code supplied by the game mode author: the listeners that the constructor of the
  player class subscribes (\<^verbatim>\<open>createPlayer\<close> is abstract in the core), the callbacks each
  listener object implements (\<open>None\<close>: the property is not a function), and the bodies of
  the protected hooks.
\<close>

record usercode =
  constructor_listeners :: "mod_Player \<Rightarrow> lref list"
  callback :: "lref \<Rightarrow> string \<Rightarrow> (jsval list \<Rightarrow> action list) option"
  hook :: "string \<Rightarrow> jsval list \<Rightarrow> action list"

definition log :: "obs \<Rightarrow> world \<Rightarrow> world" where
  "log x w = w\<lparr>trace := trace w @ [x]\<rparr>"

text \<open>A new mode: no manager yet, an empty listener array.\<close>

definition new_mode :: world where
  "new_mode = \<lparr>playerManager = False, players = [], mode_listeners = 0,
                objects = [], arrays = [[]], trace = []\<rparr>"

section \<open>Listener bus\<close>

definition array_at :: "world \<Rightarrow> aref \<Rightarrow> lref list" where
  "array_at w a = (if a < length (arrays w) then arrays w ! a else [])"

fun listeners_ref :: "world \<Rightarrow> target \<Rightarrow> aref option" where
  "listeners_ref w Mode = Some (mode_listeners w)"
| "listeners_ref w (LogicalPlayer p) =
     (if p < length (objects w) then Some (listeners (objects w ! p)) else None)"

text \<open>The listeners subscribed to a subject right now, in subscription order.\<close>

definition listeners_of :: "world \<Rightarrow> target \<Rightarrow> lref list" where
  "listeners_of w t = (case listeners_ref w t of None \<Rightarrow> [] | Some a \<Rightarrow> array_at w a)"

fun set_listeners :: "target \<Rightarrow> aref \<Rightarrow> world \<Rightarrow> world" where
  "set_listeners Mode a w = w\<lparr>mode_listeners := a\<rparr>"
| "set_listeners (LogicalPlayer p) a w =
     w\<lparr>objects := (objects w)[p := (objects w ! p)\<lparr>listeners := a\<rparr>]\<rparr>"

definition new_array :: "lref list \<Rightarrow> world \<Rightarrow> aref \<times> world" where
  "new_array xs w = (length (arrays w), w\<lparr>arrays := arrays w @ [xs]\<rparr>)"

text \<open>\<^verbatim>\<open>this.listeners.push(listener)\<close>: the array is changed in place.\<close>

definition addListener :: "target \<Rightarrow> lref \<Rightarrow> world \<Rightarrow> world" where
  "addListener t listener w =
     (case listeners_ref w t of
        None \<Rightarrow> w
      | Some a \<Rightarrow> w\<lparr>arrays := (arrays w)[a := array_at w a @ [listener]]\<rparr>)"

text \<open>\<^verbatim>\<open>this.listeners = this.listeners.filter((l) => l !== listener)\<close>: a new array
  replaces the field; the old array keeps its contents.\<close>

definition removeListener :: "target \<Rightarrow> lref \<Rightarrow> world \<Rightarrow> world" where
  "removeListener t listener w =
     (case listeners_ref w t of
        None \<Rightarrow> w
      | Some a \<Rightarrow>
          (let (a', w') = new_array (filter (\<lambda>l. l \<noteq> listener) (array_at w a)) w
           in set_listeners t a' w'))"

fun run_action :: "action \<Rightarrow> world \<Rightarrow> world" where
  "run_action (CallAddListener t l) w = addListener t l w"
| "run_action (CallRemoveListener t l) w = removeListener t l w"

definition run_actions :: "action list \<Rightarrow> world \<Rightarrow> world" where
  "run_actions acts w = fold run_action acts w"

text \<open>One step of the loop of \<^verbatim>\<open>emit\<close>: \<^verbatim>\<open>const fn = listener[event]\<close>, called when
  it is a function.\<close>

definition invoke ::
  "usercode \<Rightarrow> target \<Rightarrow> lref \<Rightarrow> string \<Rightarrow> jsval list \<Rightarrow> world \<Rightarrow> world" where
  "invoke U t listener event args w =
     (case callback U listener event of
        None \<Rightarrow> w
      | Some fn \<Rightarrow> run_actions (fn args) (log (Callback t listener event args) w))"

text \<open>
  \<^verbatim>\<open>for (const listener of this.listeners)\<close>: the array iterator holds the array the
  field referred to when the loop began and reads its length again at every step, so
  elements pushed onto that array meanwhile are visited too and the loop need not end.
  \<open>None\<close> is the run that never returns.
\<close>

partial_function (option) emit_loop ::
  "usercode \<Rightarrow> target \<Rightarrow> string \<Rightarrow> jsval list \<Rightarrow> aref \<Rightarrow> nat \<Rightarrow> world \<Rightarrow> world option" where
  "emit_loop U t event args a i w =
     (if i < length (array_at w a)
      then emit_loop U t event args a (i + 1) (invoke U t (array_at w a ! i) event args w)
      else Some w)"

definition emit ::
  "usercode \<Rightarrow> target \<Rightarrow> string \<Rightarrow> jsval list \<Rightarrow> world \<Rightarrow> world option" where
  "emit U t event args w =
     (let w1 = log (Emit t event args) w
      in case listeners_ref w1 t of
           None \<Rightarrow> Some w1
         | Some a \<Rightarrow> emit_loop U t event args a 0 w1)"

text \<open>Does a listener implement the capability of that name?\<close>

definition implements :: "usercode \<Rightarrow> string \<Rightarrow> lref \<Rightarrow> bool" where
  "implements U event l = (callback U l event \<noteq> None)"

text \<open>The callbacks for an event never subscribe: they only call \<^verbatim>\<open>removeListener\<close>.\<close>

fun is_remove :: "action \<Rightarrow> bool" where
  "is_remove (CallRemoveListener t l) = True"
| "is_remove (CallAddListener t l) = False"

definition unsubscribe_only :: "usercode \<Rightarrow> string \<Rightarrow> bool" where
  "unsubscribe_only U event =
     (\<forall>l fn args. callback U l event = Some fn \<longrightarrow> list_all is_remove (fn args))"

section \<open>Player registry\<close>

text \<open>The three operations of the JavaScript \<^verbatim>\<open>Map\<close> that the manager uses. \<^verbatim>\<open>get\<close> is
  \<open>map_of\<close>; \<^verbatim>\<open>set\<close> keeps the position of a key that is present and appends a new one.\<close>

definition Map_set :: "int \<Rightarrow> pref \<Rightarrow> (int \<times> pref) list \<Rightarrow> (int \<times> pref) list" where
  "Map_set k v m =
     (if k \<in> fst ` set m then map (\<lambda>(k', v'). if k' = k then (k', v) else (k', v')) m
      else m @ [(k, v)])"

definition Map_delete :: "int \<Rightarrow> (int \<times> pref) list \<Rightarrow> (int \<times> pref) list" where
  "Map_delete k m = filter (\<lambda>(k', v'). k' \<noteq> k) m"

text \<open>\<^verbatim>\<open>new Example_Player(player, gameMode)\<close>: a new object with a new listener array,
  to which the constructor of the subclass subscribes its listeners.\<close>

definition createPlayer :: "usercode \<Rightarrow> mod_Player \<Rightarrow> world \<Rightarrow> pref \<times> world" where
  "createPlayer U p w =
     (let (a, w1) = new_array (constructor_listeners U p) w
      in (length (objects w1), w1\<lparr>objects := objects w1 @ [\<lparr>player = p, listeners = a\<rparr>]\<rparr>))"

text \<open>The loop of \<^verbatim>\<open>addPlayer\<close> over \<^verbatim>\<open>this.players.values()\<close>.\<close>

fun notify_others :: "usercode \<Rightarrow> pref \<Rightarrow> pref list \<Rightarrow> world \<Rightarrow> world option" where
  "notify_others U lp [] w = Some w"
| "notify_others U lp (other # rest) w =
     (if other \<noteq> lp
      then (case emit U (LogicalPlayer other) ''OnPlayerJoinGame'' [LP lp] w of
              None \<Rightarrow> None
            | Some w' \<Rightarrow> notify_others U lp rest w')
      else notify_others U lp rest w)"

definition addPlayer :: "usercode \<Rightarrow> mod_Player \<Rightarrow> world \<Rightarrow> (pref \<times> world) option" where
  "addPlayer U p w =
     (let ident = GetObjId p
      in case map_of (players w) ident of
           Some lp \<Rightarrow> Some (lp, w)
         | None \<Rightarrow>
             (let (lp, w1) = createPlayer U p w;
                  w2 = log (MapSet ident lp) (w1\<lparr>players := Map_set ident lp (players w1)\<rparr>)
              in map_option (Pair lp) (notify_others U lp (map snd (players w2)) w2)))"

text \<open>\<^verbatim>\<open>removePlayer\<close>: the log records the delete when it removed an entry.\<close>

definition removePlayer :: "int \<Rightarrow> world \<Rightarrow> world" where
  "removePlayer playerId w =
     (case map_of (players w) playerId of
        Some lp \<Rightarrow>
          (let (a, w1) = new_array [] w;
               w2 = log (Detach lp) (set_listeners (LogicalPlayer lp) a w1)
           in log (MapDelete playerId) (w2\<lparr>players := Map_delete playerId (players w2)\<rparr>))
      | None \<Rightarrow> w\<lparr>players := Map_delete playerId (players w)\<rparr>)"

definition get :: "world \<Rightarrow> mod_Player \<Rightarrow> pref option" where
  "get w p = (if \<not> IsPlayerValid p then None else map_of (players w) (GetObjId p))"

definition getById :: "world \<Rightarrow> int \<Rightarrow> pref option" where
  "getById w ident = map_of (players w) ident"

definition allPlayers :: "world \<Rightarrow> pref list" where
  "allPlayers w = map snd (players w)"

definition tick :: "usercode \<Rightarrow> mod_Player \<Rightarrow> world \<Rightarrow> world option" where
  "tick U eventPlayer w =
     (case get w eventPlayer of
        None \<Rightarrow> Some w
      | Some p \<Rightarrow> emit U (LogicalPlayer p) ''OngoingPlayer'' [] w)"

text \<open>
  Every other method of the manager has the same body: \<^verbatim>\<open>OnX(lp, a, b)\<close> is
  \<^verbatim>\<open>lp.emit('OnX', a, b)\<close>, for \<^verbatim>\<open>OnPlayerDeployed\<close>, \<^verbatim>\<open>OnPlayerDied\<close>,
  \<^verbatim>\<open>OnPlayerDamaged\<close> and the rest.
\<close>

definition forward ::
  "usercode \<Rightarrow> string \<Rightarrow> pref \<Rightarrow> jsval list \<Rightarrow> world \<Rightarrow> world option" where
  "forward U name p args w = emit U (LogicalPlayer p) name args w"

section \<open>Event router\<close>

text \<open>The helpers \<^verbatim>\<open>lp\<close> and \<^verbatim>\<open>lpId\<close> dereference \<^verbatim>\<open>this.playerManager\<close>.\<close>

definition lp :: "world \<Rightarrow> mod_Player \<Rightarrow> error + pref option" where
  "lp w eventPlayer = (if playerManager w then Inr (get w eventPlayer) else Inl TypeError)"

definition lpId :: "world \<Rightarrow> int \<Rightarrow> error + pref option" where
  "lpId w eventNumber = (if playerManager w then Inr (getById w eventNumber) else Inl TypeError)"

definition createPlayerManager :: "world \<Rightarrow> world" where
  "createPlayerManager w = w\<lparr>playerManager := True, players := []\<rparr>"

definition run_hook :: "usercode \<Rightarrow> string \<Rightarrow> jsval list \<Rightarrow> world \<Rightarrow> world" where
  "run_hook U name args w = run_actions (hook U name args) (log (Hook name args) w)"

fun opt_val :: "pref option \<Rightarrow> jsval" where
  "opt_val None = Undefined"
| "opt_val (Some p) = LP p"

text \<open>
  The entry points of \<^verbatim>\<open>_internal\<close>. Four of them have a body of their own. The others
  are written in one of three shapes and differ in the name and the extra arguments only:
  \<^item> \<open>GlobalEvent\<close>, \<^verbatim>\<open>this.OnX(args)\<close>: the sixteen \<^verbatim>\<open>Ongoing...\<close> entries other than
    \<^verbatim>\<open>OngoingGlobal\<close> and \<^verbatim>\<open>OngoingPlayer\<close>, \<^verbatim>\<open>OnCapturePointCaptured\<close>,
    \<^verbatim>\<open>OnCapturePointCapturing\<close>, \<^verbatim>\<open>OnCapturePointLost\<close>, \<^verbatim>\<open>OnGameModeEnding\<close>,
    \<^verbatim>\<open>OnGameModeStarted\<close>, \<^verbatim>\<open>OnMCOMArmed\<close>, \<^verbatim>\<open>OnMCOMDefused\<close>, \<^verbatim>\<open>OnMCOMDestroyed\<close>,
    \<^verbatim>\<open>OnRingOfFireZoneSizeChange\<close>, \<^verbatim>\<open>OnTimeLimitReached\<close>, \<^verbatim>\<open>OnVehicleDestroyed\<close>,
    \<^verbatim>\<open>OnVehicleSpawned\<close>;
  \<^item> \<open>PlayerEvent\<close>, one player: the eight \<^verbatim>\<open>OnAI...\<close> entries, \<^verbatim>\<open>OnPlayerDeployed\<close>,
    \<^verbatim>\<open>OnPlayerUndeploy\<close>, \<^verbatim>\<open>OnPlayerInteract\<close>, \<^verbatim>\<open>OnPlayerEnterAreaTrigger\<close>,
    \<^verbatim>\<open>OnPlayerExitAreaTrigger\<close>, \<^verbatim>\<open>OnPlayerEnterCapturePoint\<close>,
    \<^verbatim>\<open>OnPlayerExitCapturePoint\<close>, \<^verbatim>\<open>OnPlayerEnterVehicle\<close>, \<^verbatim>\<open>OnPlayerExitVehicle\<close>,
    \<^verbatim>\<open>OnPlayerEnterVehicleSeat\<close>, \<^verbatim>\<open>OnPlayerExitVehicleSeat\<close>, \<^verbatim>\<open>OnPlayerSwitchTeam\<close>,
    \<^verbatim>\<open>OnPlayerUIButtonEvent\<close>, \<^verbatim>\<open>OnRayCastHit\<close>, \<^verbatim>\<open>OnRayCastMissed\<close>,
    \<^verbatim>\<open>OnSpawnerSpawned\<close>;
  \<^item> \<open>TwoPlayerEvent\<close>, an acting and an other player: \<^verbatim>\<open>OnMandown\<close>,
    \<^verbatim>\<open>OnPlayerDamaged\<close>, \<^verbatim>\<open>OnPlayerDied\<close>, \<^verbatim>\<open>OnPlayerEarnedKill\<close>,
    \<^verbatim>\<open>OnPlayerEarnedKillAssist\<close>, \<^verbatim>\<open>OnRevived\<close>.
\<close>

datatype entry =
    OngoingGlobal
  | OngoingPlayer mod_Player
  | OnPlayerJoinGame mod_Player
  | OnPlayerLeaveGame int
  | GlobalEvent string "jsval list"
  | PlayerEvent string mod_Player "jsval list"
  | TwoPlayerEvent string mod_Player mod_Player "jsval list"

fun internal :: "usercode \<Rightarrow> entry \<Rightarrow> world \<Rightarrow> (error + world) option" where
  "internal U OngoingGlobal w =
     (case emit U Mode ''OngoingGlobal'' [] w of
        None \<Rightarrow> None
      | Some w1 \<Rightarrow> Some (Inr (run_hook U ''OngoingGlobal'' [] w1)))"
| "internal U (GlobalEvent name args) w = Some (Inr (run_hook U name args w))"
| "internal U (OngoingPlayer eventPlayer) w =
     (if \<not> playerManager w then Some (Inr w)
      else case lp w eventPlayer of
             Inl e \<Rightarrow> Some (Inl e)
           | Inr None \<Rightarrow> Some (Inr w)
           | Inr (Some p) \<Rightarrow>
               (case tick U eventPlayer w of
                  None \<Rightarrow> None
                | Some w1 \<Rightarrow> Some (Inr (run_hook U ''OngoingPlayer'' [LP p] w1))))"
| "internal U (PlayerEvent name eventPlayer args) w =
     (case lp w eventPlayer of
        Inl e \<Rightarrow> Some (Inl e)
      | Inr None \<Rightarrow> Some (Inr w)
      | Inr (Some p) \<Rightarrow>
          (case forward U name p args w of
             None \<Rightarrow> None
           | Some w1 \<Rightarrow> Some (Inr (run_hook U name (LP p # args) w1))))"
| "internal U (TwoPlayerEvent name eventPlayer eventOtherPlayer args) w =
     (case lp w eventPlayer of
        Inl e \<Rightarrow> Some (Inl e)
      | Inr None \<Rightarrow> Some (Inr w)
      | Inr (Some p) \<Rightarrow>
          (case lp w eventOtherPlayer of
             Inl e \<Rightarrow> Some (Inl e)
           | Inr other \<Rightarrow>
               (case forward U name p (opt_val other # args) w of
                  None \<Rightarrow> None
                | Some w1 \<Rightarrow> Some (Inr (run_hook U name (LP p # opt_val other # args) w1)))))"
| "internal U (OnPlayerJoinGame eventPlayer) w =
     (let w0 = (if \<not> playerManager w then createPlayerManager w else w)
      in case addPlayer U eventPlayer w0 of
           None \<Rightarrow> None
         | Some (p, w1) \<Rightarrow> Some (Inr (run_hook U ''OnPlayerJoinGame'' [LP p] w1)))"
| "internal U (OnPlayerLeaveGame eventNumber) w =
     (case lpId w eventNumber of
        Inl e \<Rightarrow> Some (Inl e)
      | Inr None \<Rightarrow> Some (Inr (removePlayer eventNumber w))
      | Inr (Some p) \<Rightarrow>
          Some (Inr (removePlayer eventNumber (run_hook U ''OnPlayerLeaveGame'' [LP p] w))))"

text \<open>The other fifty-eight entry points, each in its shape, with the name and the
  arguments of the source.\<close>

definition OngoingAreaTrigger :: "jsval \<Rightarrow> entry" where
  "OngoingAreaTrigger eventAreaTrigger =
     GlobalEvent ''OngoingAreaTrigger'' [eventAreaTrigger]"

definition OngoingCapturePoint :: "jsval \<Rightarrow> entry" where
  "OngoingCapturePoint eventCapturePoint =
     GlobalEvent ''OngoingCapturePoint'' [eventCapturePoint]"

definition OngoingEmplacementSpawner :: "jsval \<Rightarrow> entry" where
  "OngoingEmplacementSpawner eventEmplacementSpawner =
     GlobalEvent ''OngoingEmplacementSpawner'' [eventEmplacementSpawner]"

definition OngoingHQ :: "jsval \<Rightarrow> entry" where
  "OngoingHQ eventHQ =
     GlobalEvent ''OngoingHQ'' [eventHQ]"

definition OngoingInteractPoint :: "jsval \<Rightarrow> entry" where
  "OngoingInteractPoint eventInteractPoint =
     GlobalEvent ''OngoingInteractPoint'' [eventInteractPoint]"

definition OngoingLootSpawner :: "jsval \<Rightarrow> entry" where
  "OngoingLootSpawner eventLootSpawner =
     GlobalEvent ''OngoingLootSpawner'' [eventLootSpawner]"

definition OngoingMCOM :: "jsval \<Rightarrow> entry" where
  "OngoingMCOM eventMCOM =
     GlobalEvent ''OngoingMCOM'' [eventMCOM]"

definition OngoingRingOfFire :: "jsval \<Rightarrow> entry" where
  "OngoingRingOfFire eventRingOfFire =
     GlobalEvent ''OngoingRingOfFire'' [eventRingOfFire]"

definition OngoingSector :: "jsval \<Rightarrow> entry" where
  "OngoingSector eventSector =
     GlobalEvent ''OngoingSector'' [eventSector]"

definition OngoingSpawner :: "jsval \<Rightarrow> entry" where
  "OngoingSpawner eventSpawner =
     GlobalEvent ''OngoingSpawner'' [eventSpawner]"

definition OngoingSpawnPoint :: "jsval \<Rightarrow> entry" where
  "OngoingSpawnPoint eventSpawnPoint =
     GlobalEvent ''OngoingSpawnPoint'' [eventSpawnPoint]"

definition OngoingTeam :: "jsval \<Rightarrow> entry" where
  "OngoingTeam eventTeam =
     GlobalEvent ''OngoingTeam'' [eventTeam]"

definition OngoingVehicle :: "jsval \<Rightarrow> entry" where
  "OngoingVehicle eventVehicle =
     GlobalEvent ''OngoingVehicle'' [eventVehicle]"

definition OngoingVehicleSpawner :: "jsval \<Rightarrow> entry" where
  "OngoingVehicleSpawner eventVehicleSpawner =
     GlobalEvent ''OngoingVehicleSpawner'' [eventVehicleSpawner]"

definition OngoingWaypointPath :: "jsval \<Rightarrow> entry" where
  "OngoingWaypointPath eventWaypointPath =
     GlobalEvent ''OngoingWaypointPath'' [eventWaypointPath]"

definition OngoingWorldIcon :: "jsval \<Rightarrow> entry" where
  "OngoingWorldIcon eventWorldIcon =
     GlobalEvent ''OngoingWorldIcon'' [eventWorldIcon]"

definition OnAIMoveToFailed :: "mod_Player \<Rightarrow> entry" where
  "OnAIMoveToFailed eventPlayer =
     PlayerEvent ''OnAIMoveToFailed'' eventPlayer []"

definition OnAIMoveToRunning :: "mod_Player \<Rightarrow> entry" where
  "OnAIMoveToRunning eventPlayer =
     PlayerEvent ''OnAIMoveToRunning'' eventPlayer []"

definition OnAIMoveToSucceeded :: "mod_Player \<Rightarrow> entry" where
  "OnAIMoveToSucceeded eventPlayer =
     PlayerEvent ''OnAIMoveToSucceeded'' eventPlayer []"

definition OnAIParachuteRunning :: "mod_Player \<Rightarrow> entry" where
  "OnAIParachuteRunning eventPlayer =
     PlayerEvent ''OnAIParachuteRunning'' eventPlayer []"

definition OnAIParachuteSucceeded :: "mod_Player \<Rightarrow> entry" where
  "OnAIParachuteSucceeded eventPlayer =
     PlayerEvent ''OnAIParachuteSucceeded'' eventPlayer []"

definition OnAIWaypointIdleFailed :: "mod_Player \<Rightarrow> entry" where
  "OnAIWaypointIdleFailed eventPlayer =
     PlayerEvent ''OnAIWaypointIdleFailed'' eventPlayer []"

definition OnAIWaypointIdleRunning :: "mod_Player \<Rightarrow> entry" where
  "OnAIWaypointIdleRunning eventPlayer =
     PlayerEvent ''OnAIWaypointIdleRunning'' eventPlayer []"

definition OnAIWaypointIdleSucceeded :: "mod_Player \<Rightarrow> entry" where
  "OnAIWaypointIdleSucceeded eventPlayer =
     PlayerEvent ''OnAIWaypointIdleSucceeded'' eventPlayer []"

definition OnCapturePointCaptured :: "jsval \<Rightarrow> entry" where
  "OnCapturePointCaptured eventCapturePoint =
     GlobalEvent ''OnCapturePointCaptured'' [eventCapturePoint]"

definition OnCapturePointCapturing :: "jsval \<Rightarrow> entry" where
  "OnCapturePointCapturing eventCapturePoint =
     GlobalEvent ''OnCapturePointCapturing'' [eventCapturePoint]"

definition OnCapturePointLost :: "jsval \<Rightarrow> entry" where
  "OnCapturePointLost eventCapturePoint =
     GlobalEvent ''OnCapturePointLost'' [eventCapturePoint]"

definition OnGameModeEnding :: "entry" where
  "OnGameModeEnding =
     GlobalEvent ''OnGameModeEnding'' []"

definition OnGameModeStarted :: "entry" where
  "OnGameModeStarted =
     GlobalEvent ''OnGameModeStarted'' []"

definition OnMandown :: "mod_Player \<Rightarrow> mod_Player \<Rightarrow> entry" where
  "OnMandown eventPlayer eventOtherPlayer =
     TwoPlayerEvent ''OnMandown'' eventPlayer eventOtherPlayer []"

definition OnPlayerDamaged ::
  "mod_Player \<Rightarrow> mod_Player \<Rightarrow> jsval \<Rightarrow> jsval \<Rightarrow> entry" where
  "OnPlayerDamaged eventPlayer eventOtherPlayer eventDamageType eventWeaponUnlock =
     TwoPlayerEvent ''OnPlayerDamaged'' eventPlayer eventOtherPlayer
       [eventDamageType, eventWeaponUnlock]"

definition OnPlayerDeployed :: "mod_Player \<Rightarrow> entry" where
  "OnPlayerDeployed eventPlayer =
     PlayerEvent ''OnPlayerDeployed'' eventPlayer []"

definition OnPlayerDied ::
  "mod_Player \<Rightarrow> mod_Player \<Rightarrow> jsval \<Rightarrow> jsval \<Rightarrow> entry" where
  "OnPlayerDied eventPlayer eventOtherPlayer eventDeathType eventWeaponUnlock =
     TwoPlayerEvent ''OnPlayerDied'' eventPlayer eventOtherPlayer
       [eventDeathType, eventWeaponUnlock]"

definition OnPlayerEarnedKill ::
  "mod_Player \<Rightarrow> mod_Player \<Rightarrow> jsval \<Rightarrow> jsval \<Rightarrow> entry" where
  "OnPlayerEarnedKill eventPlayer eventOtherPlayer eventDeathType eventWeaponUnlock =
     TwoPlayerEvent ''OnPlayerEarnedKill'' eventPlayer eventOtherPlayer
       [eventDeathType, eventWeaponUnlock]"

definition OnPlayerEarnedKillAssist ::
  "mod_Player \<Rightarrow> mod_Player \<Rightarrow> entry" where
  "OnPlayerEarnedKillAssist eventPlayer eventOtherPlayer =
     TwoPlayerEvent ''OnPlayerEarnedKillAssist'' eventPlayer eventOtherPlayer []"

definition OnRevived :: "mod_Player \<Rightarrow> mod_Player \<Rightarrow> entry" where
  "OnRevived eventPlayer eventOtherPlayer =
     TwoPlayerEvent ''OnRevived'' eventPlayer eventOtherPlayer []"

definition OnMCOMArmed :: "jsval \<Rightarrow> entry" where
  "OnMCOMArmed eventMCOM =
     GlobalEvent ''OnMCOMArmed'' [eventMCOM]"

definition OnMCOMDefused :: "jsval \<Rightarrow> entry" where
  "OnMCOMDefused eventMCOM =
     GlobalEvent ''OnMCOMDefused'' [eventMCOM]"

definition OnMCOMDestroyed :: "jsval \<Rightarrow> entry" where
  "OnMCOMDestroyed eventMCOM =
     GlobalEvent ''OnMCOMDestroyed'' [eventMCOM]"

definition OnPlayerInteract :: "mod_Player \<Rightarrow> jsval \<Rightarrow> entry" where
  "OnPlayerInteract eventPlayer eventInteractPoint =
     PlayerEvent ''OnPlayerInteract'' eventPlayer [eventInteractPoint]"

definition OnPlayerEnterAreaTrigger :: "mod_Player \<Rightarrow> jsval \<Rightarrow> entry" where
  "OnPlayerEnterAreaTrigger eventPlayer eventAreaTrigger =
     PlayerEvent ''OnPlayerEnterAreaTrigger'' eventPlayer [eventAreaTrigger]"

definition OnPlayerExitAreaTrigger :: "mod_Player \<Rightarrow> jsval \<Rightarrow> entry" where
  "OnPlayerExitAreaTrigger eventPlayer eventAreaTrigger =
     PlayerEvent ''OnPlayerExitAreaTrigger'' eventPlayer [eventAreaTrigger]"

definition OnPlayerEnterCapturePoint :: "mod_Player \<Rightarrow> jsval \<Rightarrow> entry" where
  "OnPlayerEnterCapturePoint eventPlayer eventCapturePoint =
     PlayerEvent ''OnPlayerEnterCapturePoint'' eventPlayer [eventCapturePoint]"

definition OnPlayerExitCapturePoint :: "mod_Player \<Rightarrow> jsval \<Rightarrow> entry" where
  "OnPlayerExitCapturePoint eventPlayer eventCapturePoint =
     PlayerEvent ''OnPlayerExitCapturePoint'' eventPlayer [eventCapturePoint]"

definition OnPlayerEnterVehicle :: "mod_Player \<Rightarrow> jsval \<Rightarrow> entry" where
  "OnPlayerEnterVehicle eventPlayer eventVehicle =
     PlayerEvent ''OnPlayerEnterVehicle'' eventPlayer [eventVehicle]"

definition OnPlayerExitVehicle :: "mod_Player \<Rightarrow> jsval \<Rightarrow> entry" where
  "OnPlayerExitVehicle eventPlayer eventVehicle =
     PlayerEvent ''OnPlayerExitVehicle'' eventPlayer [eventVehicle]"

definition OnPlayerEnterVehicleSeat ::
  "mod_Player \<Rightarrow> jsval \<Rightarrow> jsval \<Rightarrow> entry" where
  "OnPlayerEnterVehicleSeat eventPlayer eventVehicle eventSeat =
     PlayerEvent ''OnPlayerEnterVehicleSeat'' eventPlayer [eventVehicle, eventSeat]"

definition OnPlayerExitVehicleSeat ::
  "mod_Player \<Rightarrow> jsval \<Rightarrow> jsval \<Rightarrow> entry" where
  "OnPlayerExitVehicleSeat eventPlayer eventVehicle eventSeat =
     PlayerEvent ''OnPlayerExitVehicleSeat'' eventPlayer [eventVehicle, eventSeat]"

definition OnPlayerSwitchTeam :: "mod_Player \<Rightarrow> jsval \<Rightarrow> entry" where
  "OnPlayerSwitchTeam eventPlayer eventTeam =
     PlayerEvent ''OnPlayerSwitchTeam'' eventPlayer [eventTeam]"

definition OnPlayerUIButtonEvent ::
  "mod_Player \<Rightarrow> jsval \<Rightarrow> jsval \<Rightarrow> entry" where
  "OnPlayerUIButtonEvent eventPlayer eventUIWidget eventUIButtonEvent =
     PlayerEvent ''OnPlayerUIButtonEvent'' eventPlayer [eventUIWidget, eventUIButtonEvent]"

definition OnPlayerUndeploy :: "mod_Player \<Rightarrow> entry" where
  "OnPlayerUndeploy eventPlayer =
     PlayerEvent ''OnPlayerUndeploy'' eventPlayer []"

definition OnRayCastHit ::
  "mod_Player \<Rightarrow> jsval \<Rightarrow> jsval \<Rightarrow> entry" where
  "OnRayCastHit eventPlayer eventPoint eventNormal =
     PlayerEvent ''OnRayCastHit'' eventPlayer [eventPoint, eventNormal]"

definition OnRayCastMissed :: "mod_Player \<Rightarrow> entry" where
  "OnRayCastMissed eventPlayer =
     PlayerEvent ''OnRayCastMissed'' eventPlayer []"

definition OnSpawnerSpawned :: "mod_Player \<Rightarrow> jsval \<Rightarrow> entry" where
  "OnSpawnerSpawned eventPlayer eventSpawner =
     PlayerEvent ''OnSpawnerSpawned'' eventPlayer [eventSpawner]"

definition OnRingOfFireZoneSizeChange :: "jsval \<Rightarrow> jsval \<Rightarrow> entry" where
  "OnRingOfFireZoneSizeChange eventRingOfFire eventNumber =
     GlobalEvent ''OnRingOfFireZoneSizeChange'' [eventRingOfFire, eventNumber]"

definition OnTimeLimitReached :: "entry" where
  "OnTimeLimitReached =
     GlobalEvent ''OnTimeLimitReached'' []"

definition OnVehicleDestroyed :: "jsval \<Rightarrow> entry" where
  "OnVehicleDestroyed eventVehicle =
     GlobalEvent ''OnVehicleDestroyed'' [eventVehicle]"

definition OnVehicleSpawned :: "jsval \<Rightarrow> entry" where
  "OnVehicleSpawned eventVehicle =
     GlobalEvent ''OnVehicleSpawned'' [eventVehicle]"


section \<open>Vocabulary of the statements\<close>

text \<open>What the bus and user code never touch: the registry, the manager field, the
  number of player objects and their handles; arrays are only ever added.\<close>

definition keeps_registry :: "world \<Rightarrow> world \<Rightarrow> bool" where
  "keeps_registry w w' =
     (players w' = players w \<and> playerManager w' = playerManager w
      \<and> length (objects w') = length (objects w)
      \<and> map player (objects w') = map player (objects w)
      \<and> length (arrays w) \<le> length (arrays w'))"

fun is_emit :: "obs \<Rightarrow> bool" where
  "is_emit (Emit t event args) = True"
| "is_emit x = False"

fun is_hook :: "obs \<Rightarrow> bool" where
  "is_hook (Hook name args) = True"
| "is_hook x = False"

text \<open>An entry of the log that delivers the join of \<open>B\<close> to a subject other than \<open>B\<close>:
  an emit of \<^verbatim>\<open>OnPlayerJoinGame\<close> with \<open>B\<close> as its argument, or a callback invoked by
  such an emit.\<close>

fun join_notice :: "pref \<Rightarrow> obs \<Rightarrow> bool" where
  "join_notice B (Emit t event args) =
     (t \<noteq> LogicalPlayer B \<and> event = ''OnPlayerJoinGame'' \<and> args = [LP B])"
| "join_notice B (Callback t l event args) =
     (t \<noteq> LogicalPlayer B \<and> event = ''OnPlayerJoinGame'' \<and> args = [LP B])"
| "join_notice B x = False"

text \<open>What a join puts into the log for one registered player \<open>other\<close>: the emit of
  \<^verbatim>\<open>OnPlayerJoinGame\<close> on that player with the new player \<open>B\<close> as its argument, followed by
  the callbacks of the listeners \<open>ls\<close> it reaches.\<close>

definition join_block :: "pref \<Rightarrow> pref \<Rightarrow> lref list \<Rightarrow> obs list" where
  "join_block B other ls =
     Emit (LogicalPlayer other) ''OnPlayerJoinGame'' [LP B]
       # map (\<lambda>l. Callback (LogicalPlayer other) l ''OnPlayerJoinGame'' [LP B]) ls"

text \<open>The callbacks for an event leave the listener lists of all players alone: at most
  they unsubscribe observers of the mode.\<close>

fun mode_removal :: "action \<Rightarrow> bool" where
  "mode_removal (CallRemoveListener Mode l) = True"
| "mode_removal act = False"

definition players_untouched :: "usercode \<Rightarrow> string \<Rightarrow> bool" where
  "players_untouched U event =
     (\<forall>l fn args. callback U l event = Some fn \<longrightarrow> list_all mode_removal (fn args))"

fun is_leave :: "entry \<Rightarrow> bool" where
  "is_leave (OnPlayerLeaveGame n) = True"
| "is_leave e = False"

text \<open>A stretch of the log in which nothing follows a hook invocation: every write of the
  registry, every emit and every callback comes before the hook.\<close>

definition hook_last :: "obs list \<Rightarrow> bool" where
  "hook_last tr = list_all (\<lambda>x. \<not> is_hook x) (butlast tr)"

text \<open>Every registered player is an object of the heap, every listener field an array
  of the heap, and the keys of the registry are distinct.\<close>

definition wf_world :: "world \<Rightarrow> bool" where
  "wf_world w =
     (mode_listeners w < length (arrays w)
      \<and> list_all (\<lambda>obj. listeners obj < length (arrays w)) (objects w)
      \<and> list_all (\<lambda>p. p < length (objects w)) (allPlayers w)
      \<and> distinct (map fst (players w)))"

text \<open>A sequence of joins, handed to \<^verbatim>\<open>addPlayer\<close> one after the other.\<close>

fun addPlayers :: "usercode \<Rightarrow> mod_Player list \<Rightarrow> world \<Rightarrow> (pref list \<times> world) option" where
  "addPlayers U [] w = Some ([], w)"
| "addPlayers U (p # ps) w =
     (case addPlayer U p w of
        None \<Rightarrow> None
      | Some (x, w1) \<Rightarrow>
          (case addPlayers U ps w1 of
             None \<Rightarrow> None
           | Some (xs, w2) \<Rightarrow> Some (x # xs, w2)))"

section \<open>A small game mode\<close>

text \<open>
  User code in the style of the example mode of the template. The player class subscribes
  one listener per player in its constructor (listener \<open>20 + id\<close>), with callbacks for
  \<^verbatim>\<open>OnPlayerDeployed\<close>, \<^verbatim>\<open>OnPlayerDied\<close>, \<^verbatim>\<open>OnPlayerDamaged\<close> and
  \<^verbatim>\<open>OnPlayerJoinGame\<close>. Three observers of the mode: observer 1 unsubscribes observer 2
  on every tick, observer 2 only listens, observer 3 implements no capability. The hook
  \<^verbatim>\<open>OnPlayerLeaveGame\<close> subscribes listener 9 to the player who leaves.
\<close>

definition example_code :: usercode where
  "example_code =
     \<lparr>constructor_listeners = (\<lambda>p. [20 + nat (GetObjId p)]),
      callback = (\<lambda>l event.
         if l = 1 \<and> event = ''OngoingGlobal'' then Some (\<lambda>args. [CallRemoveListener Mode 2])
         else if l = 2 \<and> event = ''OngoingGlobal'' then Some (\<lambda>args. [])
         else if 20 \<le> l \<and> event \<in> set [''OnPlayerDeployed'', ''OnPlayerDied'',
                                           ''OnPlayerDamaged'', ''OnPlayerJoinGame'']
           then Some (\<lambda>args. [])
         else None),
      hook = (\<lambda>name args.
         if name = ''OnPlayerLeaveGame'' then [CallAddListener (LogicalPlayer 0) 9] else [])\<rparr>"

text \<open>Player 7 has joined (object 0, listener 27); observers 1, 2 and 3 are subscribed
  to the mode.\<close>

definition example_world :: world where
  "example_world =
     \<lparr>playerManager = True, players = [(7, 0)], mode_listeners = 0,
      objects = [\<lparr>player = Player 7 True, listeners = 1\<rparr>],
      arrays = [[1, 2, 3], [27]], trace = []\<rparr>"

text \<open>Players 7 and 8 have joined (objects 0 and 1, listeners 27 and 28).\<close>

definition two_player_world :: world where
  "two_player_world =
     \<lparr>playerManager = True, players = [(7, 0), (8, 1)], mode_listeners = 0,
      objects = [\<lparr>player = Player 7 True, listeners = 1\<rparr>,
                 \<lparr>player = Player 8 True, listeners = 2\<rparr>],
      arrays = [[1, 2, 3], [27], [28]], trace = []\<rparr>"

text \<open>An observer whose tick callback subscribes itself once more.\<close>

definition resubscribing_code :: usercode where
  "resubscribing_code =
     \<lparr>constructor_listeners = (\<lambda>p. []),
      callback = (\<lambda>l event.
         if l = 1 \<and> event = ''OngoingGlobal'' then Some (\<lambda>args. [CallAddListener Mode 1])
         else None),
      hook = (\<lambda>name args. [])\<rparr>"

section \<open>Frame lemmas for user code\<close>

lemma array_at_append [simp]:
  "array_at (w\<lparr>arrays := arrays w @ ext\<rparr>) a
     = (if a < length (arrays w) then array_at w a
        else if a < length (arrays w) + length ext then ext ! (a - length (arrays w)) else [])"
  by (simp add: array_at_def nth_append)

lemma trace_log [simp]: "trace (log x w) = trace w @ [x]"
  and players_log [simp]: "players (log x w) = players w"
  and playerManager_log [simp]: "playerManager (log x w) = playerManager w"
  and objects_log [simp]: "objects (log x w) = objects w"
  and arrays_log [simp]: "arrays (log x w) = arrays w"
  and mode_listeners_log [simp]: "mode_listeners (log x w) = mode_listeners w"
  by (simp_all add: log_def)

lemma array_at_log [simp]: "array_at (log x w) a = array_at w a"
  by (simp add: array_at_def)

lemma listeners_ref_log [simp]: "listeners_ref (log x w) t = listeners_ref w t"
  by (cases t) simp_all

lemma listeners_of_log [simp]: "listeners_of (log x w) t = listeners_of w t"
  by (simp add: listeners_of_def split: option.splits)

text \<open>What one action leaves alone.\<close>

lemma run_action_frame:
  "trace (run_action act w) = trace w
   \<and> players (run_action act w) = players w
   \<and> playerManager (run_action act w) = playerManager w
   \<and> length (objects (run_action act w)) = length (objects w)
   \<and> map player (objects (run_action act w)) = map player (objects w)
   \<and> length (arrays w) \<le> length (arrays (run_action act w))"
proof (cases act)
  case (CallAddListener t l)
  then show ?thesis
    by (cases t) (simp_all add: addListener_def split: option.splits)
next
  case (CallRemoveListener t l)
  then show ?thesis
    by (cases t)
       (simp_all add: removeListener_def new_array_def map_update list_update_same_conv
          split: option.splits if_splits)
qed

lemma run_action_prefix:
  "prefix (array_at w a) (array_at (run_action act w) a)"
proof (cases act)
  case (CallAddListener t l)
  then show ?thesis
    by (cases t)
       (auto simp: addListener_def array_at_def nth_list_update split: option.splits)
next
  case (CallRemoveListener t l)
  then show ?thesis
    by (cases t)
       (auto simp: removeListener_def new_array_def array_at_def nth_append
          split: option.splits)
qed

lemma run_action_remove_arrays:
  "is_remove act \<Longrightarrow> \<exists>ext. arrays (run_action act w) = arrays w @ ext"
proof (cases act)
  case (CallAddListener t l)
  assume "is_remove act"
  with CallAddListener show ?thesis by simp
next
  case (CallRemoveListener t l)
  then show ?thesis
    by (cases t) (auto simp: removeListener_def new_array_def split: option.splits)
qed

lemma run_actions_frame:
  "trace (run_actions acts w) = trace w
   \<and> players (run_actions acts w) = players w
   \<and> playerManager (run_actions acts w) = playerManager w
   \<and> length (objects (run_actions acts w)) = length (objects w)
   \<and> map player (objects (run_actions acts w)) = map player (objects w)
   \<and> length (arrays w) \<le> length (arrays (run_actions acts w))"
proof (induction acts arbitrary: w)
  case Nil
  show ?case by (simp add: run_actions_def)
next
  case (Cons act acts)
  have step: "run_actions (act # acts) w = run_actions acts (run_action act w)"
    by (simp add: run_actions_def)
  from Cons.IH [of "run_action act w"] run_action_frame [of act w]
  show ?case unfolding step by (metis le_trans)
qed

lemma run_actions_prefix:
  "prefix (array_at w a) (array_at (run_actions acts w) a)"
proof (induction acts arbitrary: w)
  case Nil
  show ?case by (simp add: run_actions_def)
next
  case (Cons act acts)
  have step: "run_actions (act # acts) w = run_actions acts (run_action act w)"
    by (simp add: run_actions_def)
  from Cons.IH [of "run_action act w"] run_action_prefix [of w a act]
  show ?case unfolding step by (rule prefix_order.trans [rotated])
qed

lemma run_actions_remove_arrays:
  "list_all is_remove acts \<Longrightarrow> \<exists>ext. arrays (run_actions acts w) = arrays w @ ext"
proof (induction acts arbitrary: w)
  case Nil
  show ?case by (simp add: run_actions_def)
next
  case (Cons act acts)
  have step: "run_actions (act # acts) w = run_actions acts (run_action act w)"
    by (simp add: run_actions_def)
  from Cons.prems have a: "is_remove act" and r: "list_all is_remove acts" by simp_all
  from run_action_remove_arrays [OF a, of w]
  obtain e1 where e1: "arrays (run_action act w) = arrays w @ e1" by blast
  from Cons.IH [OF r, of "run_action act w"]
  obtain e2 where "arrays (run_actions acts (run_action act w)) = arrays (run_action act w) @ e2"
    by blast
  with e1 show ?case unfolding step by simp
qed

section \<open>The loop of emit\<close>


lemma invoke_frame:
  "trace (invoke U t l ev args w)
      = trace w @ (if implements U ev l then [Callback t l ev args] else [])
   \<and> players (invoke U t l ev args w) = players w
   \<and> playerManager (invoke U t l ev args w) = playerManager w
   \<and> length (objects (invoke U t l ev args w)) = length (objects w)
   \<and> map player (objects (invoke U t l ev args w)) = map player (objects w)
   \<and> length (arrays w) \<le> length (arrays (invoke U t l ev args w))"
proof (cases "callback U l ev")
  case None
  then show ?thesis by (simp add: invoke_def implements_def)
next
  case (Some fn)
  from run_actions_frame [of "fn args" "log (Callback t l ev args) w"] Some
  show ?thesis by (simp add: invoke_def implements_def)
qed

lemma invoke_prefix: "prefix (array_at w a) (array_at (invoke U t l ev args w) a)"
proof (cases "callback U l ev")
  case None
  then show ?thesis by (simp add: invoke_def)
next
  case (Some fn)
  from run_actions_prefix [of "log (Callback t l ev args) w" a "fn args"] Some
  show ?thesis by (simp add: invoke_def)
qed

lemma invoke_remove_arrays:
  assumes "unsubscribe_only U ev"
  shows "\<exists>ext. arrays (invoke U t l ev args w) = arrays w @ ext"
proof (cases "callback U l ev")
  case None
  then show ?thesis by (simp add: invoke_def)
next
  case (Some fn)
  with assms have "list_all is_remove (fn args)" by (simp add: unsubscribe_only_def)
  from run_actions_remove_arrays [OF this, of "log (Callback t l ev args) w"] Some
  show ?thesis by (simp add: invoke_def)
qed

lemma emit_loop_sound:
  assumes ret: "emit_loop U t ev args a i w = Some w'"
  shows "prefix (array_at w a) (array_at w' a)
       \<and> trace w' = trace w @ map (\<lambda>l. Callback t l ev args)
                                (filter (implements U ev) (drop i (array_at w' a)))
       \<and> players w' = players w
       \<and> playerManager w' = playerManager w
       \<and> length (objects w') = length (objects w)
       \<and> map player (objects w') = map player (objects w)
       \<and> length (arrays w) \<le> length (arrays w')"
proof -
  let ?Q = "\<lambda>(U::usercode) (t::target) (ev::string) (args::jsval list) (a::aref) (i::nat)
              (w::world) (w'::world).
       prefix (array_at w a) (array_at w' a)
       \<and> trace w' = trace w @ map (\<lambda>l. Callback t l ev args)
                                (filter (implements U ev) (drop i (array_at w' a)))
       \<and> players w' = players w
       \<and> playerManager w' = playerManager w
       \<and> length (objects w') = length (objects w)
       \<and> map player (objects w') = map player (objects w)
       \<and> length (arrays w) \<le> length (arrays w')"
  have "?Q U t ev args a i w w'"
  proof (rule emit_loop.raw_induct [where P = ?Q, OF _ ret])
    fix f U t ev args a i w w'
    assume IH: "\<And>U t ev args a i w w'. f U t ev args a i w = Some w' \<Longrightarrow> ?Q U t ev args a i w w'"
      and body: "(if i < length (array_at w a)
                  then f U t ev args a (i + 1) (invoke U t (array_at w a ! i) ev args w)
                  else Some w) = Some w'"
    show "?Q U t ev args a i w w'"
    proof (cases "i < length (array_at w a)")
      case False
      with body show ?thesis by simp
    next
      case True
      define w1 where "w1 = invoke U t (array_at w a ! i) ev args w"
      from body True have "f U t ev args a (i + 1) w1 = Some w'"
        by (simp add: w1_def)
      note step = IH [OF this]
      have p1: "prefix (array_at w a) (array_at w1 a)"
        unfolding w1_def by (rule invoke_prefix)
      with step have p: "prefix (array_at w a) (array_at w' a)"
        by (meson prefix_order.trans)
      then obtain zs where zs: "array_at w' a = array_at w a @ zs"
        by (auto simp: prefix_def)
      from True zs have nth: "array_at w' a ! i = array_at w a ! i"
        by (simp add: nth_append)
      from True zs have len: "i < length (array_at w' a)" by simp
      have dr: "drop i (array_at w' a) = (array_at w a ! i) # drop (i + 1) (array_at w' a)"
        using Cons_nth_drop_Suc [OF len] nth by simp
      from invoke_frame [of U t "array_at w a ! i" ev args w]
      have fr: "trace w1 = trace w @ (if implements U ev (array_at w a ! i)
                   then [Callback t (array_at w a ! i) ev args] else [])"
        and "players w1 = players w" "playerManager w1 = playerManager w"
        and "length (objects w1) = length (objects w)"
        and "map player (objects w1) = map player (objects w)"
        and "length (arrays w) \<le> length (arrays w1)"
        by (simp_all add: w1_def)
      with step p dr show ?thesis by auto
    qed
  qed
  then show ?thesis by simp
qed

lemma emit_loop_total:
  assumes "unsubscribe_only U ev"
  shows "\<exists>w'. emit_loop U t ev args a i w = Some w' \<and> array_at w' a = array_at w a"
proof (induction "length (array_at w a) - i" arbitrary: i w)
  case 0
  then have "\<not> i < length (array_at w a)" by simp
  then show ?case by (subst emit_loop.simps) simp
next
  case (Suc n)
  then have lt: "i < length (array_at w a)" by simp
  define w1 where "w1 = invoke U t (array_at w a ! i) ev args w"
  from lt have a: "a < length (arrays w)"
    by (auto simp: array_at_def split: if_splits)
  from invoke_remove_arrays [OF assms, of t "array_at w a ! i" args w]
  obtain ext where "arrays w1 = arrays w @ ext" by (auto simp: w1_def)
  with a have same: "array_at w1 a = array_at w a"
    by (simp add: array_at_def nth_append)
  with Suc(2) have "n = length (array_at w1 a) - (i + 1)" by simp
  from Suc(1) [OF this] obtain w' where
    "emit_loop U t ev args a (i + 1) w1 = Some w'" "array_at w' a = array_at w1 a"
    by blast
  with same lt show ?case
    by (subst emit_loop.simps) (simp add: w1_def)
qed


lemma keeps_registry_refl [simp]: "keeps_registry w w"
  by (simp add: keeps_registry_def)

lemma keeps_registry_trans:
  "keeps_registry w w1 \<Longrightarrow> keeps_registry w1 w2 \<Longrightarrow> keeps_registry w w2"
  by (auto simp: keeps_registry_def)

lemma keeps_registry_log [simp]: "keeps_registry w (log x w)"
  by (simp add: keeps_registry_def)

lemma run_actions_keeps: "keeps_registry w (run_actions acts w)"
  using run_actions_frame [of acts w] by (simp add: keeps_registry_def)

lemma run_hook_trace [simp]: "trace (run_hook U name args w) = trace w @ [Hook name args]"
  using run_actions_frame [of "hook U name args" "log (Hook name args) w"]
  by (simp add: run_hook_def)

lemma run_hook_keeps: "keeps_registry w (run_hook U name args w)"
  unfolding run_hook_def
  by (rule keeps_registry_trans [OF keeps_registry_log run_actions_keeps])

lemma emit_sound:
  assumes "emit U t ev args w = Some w'"
  shows "\<exists>ls. trace w' = trace w @ Emit t ev args # map (\<lambda>l. Callback t l ev args) ls
              \<and> prefix (filter (implements U ev) (listeners_of w t)) ls"
    and "keeps_registry w w'"
proof -
  show "\<exists>ls. trace w' = trace w @ Emit t ev args # map (\<lambda>l. Callback t l ev args) ls
              \<and> prefix (filter (implements U ev) (listeners_of w t)) ls"
  proof (cases "listeners_ref w t")
    case None
    with assms have "trace w' = trace w @ Emit t ev args # map (\<lambda>l. Callback t l ev args) []"
      by (auto simp: emit_def)
    with None show ?thesis unfolding listeners_of_def by force
  next
    case (Some a)
    with assms have "emit_loop U t ev args a 0 (log (Emit t ev args) w) = Some w'"
      by (simp add: emit_def)
    from emit_loop_sound [OF this] Some show ?thesis
      by (auto simp: listeners_of_def intro: filter_mono_prefix)
  qed
  show "keeps_registry w w'"
  proof (cases "listeners_ref w t")
    case None
    with assms show ?thesis by (auto simp: emit_def)
  next
    case (Some a)
    with assms have "emit_loop U t ev args a 0 (log (Emit t ev args) w) = Some w'"
      by (simp add: emit_def)
    from emit_loop_sound [OF this] show ?thesis
      by (simp add: keeps_registry_def)
  qed
qed

lemma emit_total:
  assumes "unsubscribe_only U ev"
  shows "\<exists>w'. emit U t ev args w = Some w'
            \<and> trace w' = trace w @ Emit t ev args
                 # map (\<lambda>l. Callback t l ev args) (filter (implements U ev) (listeners_of w t))"
proof (cases "listeners_ref w t")
  case None
  then show ?thesis by (simp add: emit_def listeners_of_def)
next
  case (Some a)
  from emit_loop_total [OF assms, of t args a 0 "log (Emit t ev args) w"]
  obtain w' where r: "emit_loop U t ev args a 0 (log (Emit t ev args) w) = Some w'"
    and same: "array_at w' a = array_at (log (Emit t ev args) w) a" by blast
  from emit_loop_sound [OF r] same Some r show ?thesis
    by (simp add: emit_def listeners_of_def)
qed

section \<open>Leaving, removal and repeated joins\<close>


lemma map_of_Map_delete [simp]: "map_of (Map_delete k m) k = None"
  by (induction m) (auto simp: Map_delete_def)

lemma Map_delete_absent: "map_of m k = None \<Longrightarrow> Map_delete k m = m"
  by (induction m) (auto simp: Map_delete_def split: if_splits)

lemma emit_no_listeners:
  "listeners_of w t = [] \<Longrightarrow> emit U t ev args w = Some (log (Emit t ev args) w)"
  by (cases "listeners_ref w t")
     (simp_all add: emit_def listeners_of_def emit_loop.simps)

lemma removePlayer_present:
  assumes "getById w n = Some p"
  shows "listeners_of (removePlayer n w) (LogicalPlayer p) = []"
    and "getById (removePlayer n w) n = None"
    and "trace (removePlayer n w) = trace w @ [Detach p, MapDelete n]"
  using assms
  by (simp_all add: removePlayer_def getById_def new_array_def listeners_of_def array_at_def
        nth_append)

lemma removePlayer_absent:
  "getById w n = None \<Longrightarrow> removePlayer n w = w"
  by (simp add: removePlayer_def getById_def Map_delete_absent)

lemma getById_removePlayer [simp]: "getById (removePlayer n w) n = None"
  by (cases "getById w n") (simp_all add: removePlayer_present removePlayer_absent)

lemma dropped_event:
  assumes "playerManager w" and "get w p = None"
  shows "internal U (PlayerEvent name p args) w = Some (Inr w)"
    and "internal U (OngoingPlayer p) w = Some (Inr w)"
  using assms by (simp_all add: lp_def)

lemma invalid_handle_is_absent: "\<not> IsPlayerValid p \<Longrightarrow> get w p = None"
  by (simp add: get_def)

text \<open>Before the first join there is no manager: every entry point that resolves a player
  throws, except \<^verbatim>\<open>OngoingPlayer\<close>, which checks for the manager first.\<close>

lemma without_manager:
  assumes "\<not> playerManager w"
  shows "internal U (PlayerEvent name p args) w = Some (Inl TypeError)"
    and "internal U (TwoPlayerEvent name p q args) w = Some (Inl TypeError)"
    and "internal U (OnPlayerLeaveGame n) w = Some (Inl TypeError)"
    and "internal U (OngoingPlayer p) w = Some (Inr w)"
  using assms by (simp_all add: lp_def lpId_def)

text \<open>
  Claim C8. \<^verbatim>\<open>removePlayer(id)\<close> on a registered id first gives the logical player an
  empty listener list, so that an emit through it reaches no callback, and then deletes the
  entry; on an id without entry it changes nothing; calling it twice in a row leaves the
  same world as calling it once.
\<close>

theorem remove_detaches_then_deletes_and_is_idempotent:
  "(getById w n = Some p \<longrightarrow>
       listeners_of (removePlayer n w) (LogicalPlayer p) = []
     \<and> emit U (LogicalPlayer p) ev args (removePlayer n w)
           = Some (log (Emit (LogicalPlayer p) ev args) (removePlayer n w))
     \<and> getById (removePlayer n w) n = None
     \<and> trace (removePlayer n w) = trace w @ [Detach p, MapDelete n])
   \<and> (getById w n = None \<longrightarrow> removePlayer n w = w)
   \<and> removePlayer n (removePlayer n w) = removePlayer n w"
  by (simp add: removePlayer_present removePlayer_absent emit_no_listeners)

theorem remove_detaches_then_deletes_and_is_idempotent_witness:
  "getById example_world 7 = Some 0
   \<and> listeners_of example_world (LogicalPlayer 0) = [27]
   \<and> listeners_of (removePlayer 7 example_world) (LogicalPlayer 0) = []
   \<and> getById (removePlayer 7 example_world) 7 = None
   \<and> trace (removePlayer 7 example_world) = [Detach 0, MapDelete 7]
   \<and> getById example_world 8 = None
   \<and> removePlayer 8 example_world = example_world
   \<and> removePlayer 7 (removePlayer 7 example_world) = removePlayer 7 example_world"
  using remove_detaches_then_deletes_and_is_idempotent [of example_world 7 0 example_code "''OnPlayerDied''" "[]"]
        remove_detaches_then_deletes_and_is_idempotent [of example_world 8 0 example_code "''OnPlayerDied''" "[]"]
  by (simp add: getById_def example_world_def listeners_of_def array_at_def)

text \<open>
  Claim C10. \<^verbatim>\<open>addPlayer\<close> with a handle whose id is registered returns the registered
  logical player and leaves the whole world as it was: the same registry, the same
  listener lists, and nothing added to the log, so no \<^verbatim>\<open>OnPlayerJoinGame\<close> is emitted.
\<close>

theorem duplicate_join_changes_nothing:
  assumes "getById w (GetObjId p) = Some existing"
  shows "addPlayer U p w = Some (existing, w)"
  using assms by (simp add: addPlayer_def getById_def)

theorem duplicate_join_changes_nothing_witness:
  "getById example_world (GetObjId (Player 7 True)) = Some 0
   \<and> addPlayer example_code (Player 7 True) example_world = Some (0, example_world)"
  using duplicate_join_changes_nothing [of example_world "Player 7 True" 0 example_code]
  by (simp add: getById_def example_world_def)

text \<open>
  Claim C6. With a manager in place the leave event for id \<open>n\<close> returns; when
  \<^verbatim>\<open>getById(n)\<close> resolves, the hook \<^verbatim>\<open>OnPlayerLeaveGame\<close> is invoked with that
  logical player before \<^verbatim>\<open>removePlayer(n)\<close> detaches and deletes it; afterwards
  \<^verbatim>\<open>getById(n)\<close> is absent.
\<close>

theorem leave_runs_hook_then_removes:
  assumes "playerManager w"
  shows "\<exists>w'. internal U (OnPlayerLeaveGame n) w = Some (Inr w')
              \<and> getById w' n = None
              \<and> (\<forall>p. getById w n = Some p \<longrightarrow>
                    trace w' = trace w @ [Hook ''OnPlayerLeaveGame'' [LP p], Detach p, MapDelete n])
              \<and> (getById w n = None \<longrightarrow> trace w' = trace w)"
proof (cases "getById w n")
  case None
  with assms show ?thesis by (simp add: lpId_def removePlayer_absent)
next
  case (Some p)
  let ?w1 = "run_hook U ''OnPlayerLeaveGame'' [LP p] w"
  from run_hook_keeps [of w U "''OnPlayerLeaveGame''" "[LP p]"] Some
  have "getById ?w1 n = Some p" by (simp add: keeps_registry_def getById_def)
  from removePlayer_present [OF this] Some assms show ?thesis
    by (simp add: lpId_def)
qed

theorem leave_runs_hook_then_removes_witness:
  "playerManager example_world
   \<and> getById example_world 7 = Some 0
   \<and> (\<exists>w'. internal example_code (OnPlayerLeaveGame 7) example_world = Some (Inr w')
          \<and> getById w' 7 = None
          \<and> trace w' = [Hook ''OnPlayerLeaveGame'' [LP 0], Detach 0, MapDelete 7])"
  using leave_runs_hook_then_removes [of example_world example_code 7]
  by (simp add: getById_def example_world_def)

text \<open>
  Claim C2, at the input where the code departs from it: on a mode that has seen no join,
  \<^verbatim>\<open>_internal.OnPlayerDeployed\<close> with a handle that fails the liveness check does not
  drop the event but throws, because \<^verbatim>\<open>lp\<close> dereferences the manager that does not
  exist yet.
\<close>

theorem deployed_before_first_join_throws:
  "internal U (OnPlayerDeployed (Player 7 False)) new_mode = Some (Inl TypeError)"
  by (simp add: OnPlayerDeployed_def lp_def new_mode_def)

section \<open>Joining\<close>


lemma join_notice_not_hook: "join_notice B x \<Longrightarrow> \<not> is_hook x"
  by (cases x) simp_all

lemma notify_others_sound:
  assumes "notify_others U B others w = Some w'"
  shows "\<exists>rest. trace w' = trace w @ rest
           \<and> filter is_emit rest
               = map (\<lambda>other. Emit (LogicalPlayer other) ''OnPlayerJoinGame'' [LP B])
                   (filter (\<lambda>other. other \<noteq> B) others)
           \<and> list_all (join_notice B) rest
           \<and> keeps_registry w w'"
  using assms
proof (induction others arbitrary: w)
  case Nil
  then show ?case by simp
next
  case (Cons other rest)
  show ?case
  proof (cases "other = B")
    case True
    with Cons.prems have "notify_others U B rest w = Some w'" by simp
    from Cons.IH [OF this] True show ?thesis by simp
  next
    case False
    with Cons.prems obtain w1 where
      e: "emit U (LogicalPlayer other) ''OnPlayerJoinGame'' [LP B] w = Some w1"
      and n: "notify_others U B rest w1 = Some w'"
      by (auto split: option.splits)
    from emit_sound [OF e] obtain ls where
      t1: "trace w1 = trace w @ Emit (LogicalPlayer other) ''OnPlayerJoinGame'' [LP B]
             # map (\<lambda>l. Callback (LogicalPlayer other) l ''OnPlayerJoinGame'' [LP B]) ls"
      and k1: "keeps_registry w w1" by blast
    from Cons.IH [OF n] obtain tl where
      t2: "trace w' = trace w1 @ tl"
      and f2: "filter is_emit tl
                 = map (\<lambda>other. Emit (LogicalPlayer other) ''OnPlayerJoinGame'' [LP B])
                     (filter (\<lambda>other. other \<noteq> B) rest)"
      and a2: "list_all (join_notice B) tl"
      and k2: "keeps_registry w1 w'" by blast
    let ?d = "Emit (LogicalPlayer other) ''OnPlayerJoinGame'' [LP B]
               # map (\<lambda>l. Callback (LogicalPlayer other) l ''OnPlayerJoinGame'' [LP B]) ls @ tl"
    have "trace w' = trace w @ ?d" using t1 t2 by simp
    moreover have "filter is_emit ?d
        = map (\<lambda>other. Emit (LogicalPlayer other) ''OnPlayerJoinGame'' [LP B])
            (filter (\<lambda>other. other \<noteq> B) (other # rest))"
      using f2 False by (simp add: filter_map o_def)
    moreover have "list_all (join_notice B) ?d"
      using a2 False by (auto simp: list_all_iff)
    moreover have "keeps_registry w w'"
      using k1 k2 by (rule keeps_registry_trans)
    ultimately show ?thesis by blast
  qed
qed

lemma notify_others_total:
  assumes "unsubscribe_only U ''OnPlayerJoinGame''"
  shows "\<exists>w'. notify_others U B others w = Some w'"
proof (induction others arbitrary: w)
  case Nil
  show ?case by simp
next
  case (Cons other rest)
  from emit_total [OF assms, of "LogicalPlayer other" "[LP B]" w]
  obtain w1 where "emit U (LogicalPlayer other) ''OnPlayerJoinGame'' [LP B] w = Some w1"
    by blast
  with Cons.IH [of w1] Cons.IH [of w] show ?case by auto
qed

lemma Map_set_absent: "map_of m k = None \<Longrightarrow> Map_set k v m = m @ [(k, v)]"
  by (simp add: Map_set_def map_of_eq_None_iff)

lemma createPlayer_eq:
  "createPlayer U p w =
     (length (objects w),
      w\<lparr>arrays := arrays w @ [constructor_listeners U p],
        objects := objects w @ [\<lparr>player = p, listeners = length (arrays w)\<rparr>]\<rparr>)"
  by (simp add: createPlayer_def new_array_def)

text \<open>The world in which the notifications of a join start: the new player is already
  in the registry.\<close>

lemma addPlayer_new:
  assumes "getById w (GetObjId b) = None"
  shows "addPlayer U b w =
     map_option (Pair (length (objects w)))
       (notify_others U (length (objects w)) (allPlayers w @ [length (objects w)])
          (log (MapSet (GetObjId b) (length (objects w)))
             (w\<lparr>arrays := arrays w @ [constructor_listeners U b],
                objects := objects w @ [\<lparr>player = b, listeners = length (arrays w)\<rparr>],
                players := players w @ [(GetObjId b, length (objects w))]\<rparr>)))"
  using assms
  by (simp add: addPlayer_def getById_def createPlayer_eq Map_set_absent allPlayers_def
        log_def Let_def)

lemma addPlayer_sound:
  assumes absent: "getById w (GetObjId b) = None"
    and ret: "addPlayer U b w = Some (B, w')"
  shows "B = length (objects w)"
    and "players w' = players w @ [(GetObjId b, B)]"
    and "playerManager w' = playerManager w"
    and "length (objects w') = Suc (length (objects w))"
    and "length (arrays w) < length (arrays w')"
    and "\<exists>rest. trace w' = trace w @ MapSet (GetObjId b) B # rest
           \<and> filter is_emit rest
               = map (\<lambda>other. Emit (LogicalPlayer other) ''OnPlayerJoinGame'' [LP B])
                   (filter (\<lambda>other. other \<noteq> B) (allPlayers w))
           \<and> list_all (join_notice B) rest"
proof -
  let ?B = "length (objects w)"
  let ?w2 = "log (MapSet (GetObjId b) ?B)
             (w\<lparr>arrays := arrays w @ [constructor_listeners U b],
                objects := objects w @ [\<lparr>player = b, listeners = length (arrays w)\<rparr>],
                players := players w @ [(GetObjId b, ?B)]\<rparr>)"
  from ret addPlayer_new [OF absent, of U]
  have B: "B = ?B" and n: "notify_others U ?B (allPlayers w @ [?B]) ?w2 = Some w'"
    by auto
  from notify_others_sound [OF n] obtain rest where
    t: "trace w' = trace ?w2 @ rest"
    and f: "filter is_emit rest
              = map (\<lambda>other. Emit (LogicalPlayer other) ''OnPlayerJoinGame'' [LP ?B])
                  (filter (\<lambda>other. other \<noteq> ?B) (allPlayers w @ [?B]))"
    and a: "list_all (join_notice ?B) rest"
    and k: "keeps_registry ?w2 w'" by blast
  show "B = length (objects w)" by (rule B)
  from k B show "players w' = players w @ [(GetObjId b, B)]"
    by (simp add: keeps_registry_def)
  from k show "playerManager w' = playerManager w"
    by (simp add: keeps_registry_def)
  from k show "length (objects w') = Suc (length (objects w))"
    by (simp add: keeps_registry_def)
  from k show "length (arrays w) < length (arrays w')"
    by (simp add: keeps_registry_def)
  from t f a B show "\<exists>rest. trace w' = trace w @ MapSet (GetObjId b) B # rest
           \<and> filter is_emit rest
               = map (\<lambda>other. Emit (LogicalPlayer other) ''OnPlayerJoinGame'' [LP B])
                   (filter (\<lambda>other. other \<noteq> B) (allPlayers w))
           \<and> list_all (join_notice B) rest"
    by simp
qed

lemma addPlayer_total:
  assumes "unsubscribe_only U ''OnPlayerJoinGame''"
  shows "\<exists>B w'. addPlayer U b w = Some (B, w')"
proof (cases "getById w (GetObjId b)")
  case None
  from addPlayer_new [OF None, of U] notify_others_total [OF assms]
  show ?thesis by (metis option.simps(9))
next
  case (Some x)
  then show ?thesis by (simp add: addPlayer_def getById_def)
qed

lemma wf_world_others:
  "wf_world w \<Longrightarrow> filter (\<lambda>other. other \<noteq> length (objects w)) (allPlayers w) = allPlayers w"
  by (auto simp: wf_world_def list_all_iff intro!: filter_True)

lemma wf_world_fresh: "wf_world w \<Longrightarrow> length (objects w) \<notin> set (allPlayers w)"
  by (auto simp: wf_world_def list_all_iff)

lemma getById_append:
  "getById w k = None \<Longrightarrow> players w' = players w @ [(k, v)] \<Longrightarrow> getById w' k = Some v"
  by (simp add: getById_def map_add_def)

lemma mode_removal_is_remove: "mode_removal act \<Longrightarrow> is_remove act"
  by (cases act rule: mode_removal.cases) simp_all

lemma players_untouched_unsubscribe_only:
  "players_untouched U ev \<Longrightarrow> unsubscribe_only U ev"
  unfolding players_untouched_def unsubscribe_only_def list_all_iff
  by (blast intro: mode_removal_is_remove)

lemma run_action_mode_removal:
  assumes "mode_removal act"
  shows "objects (run_action act w) = objects w
       \<and> (\<exists>ext. arrays (run_action act w) = arrays w @ ext)"
  using assms
  by (cases act rule: mode_removal.cases)
     (simp_all add: removeListener_def new_array_def)

lemma run_actions_mode_removal:
  assumes "list_all mode_removal acts"
  shows "objects (run_actions acts w) = objects w
       \<and> (\<exists>ext. arrays (run_actions acts w) = arrays w @ ext)"
  using assms
proof (induction acts arbitrary: w)
  case Nil
  show ?case by (simp add: run_actions_def)
next
  case (Cons act acts)
  have step: "run_actions (act # acts) w = run_actions acts (run_action act w)"
    by (simp add: run_actions_def)
  from Cons.prems have a: "mode_removal act" and r: "list_all mode_removal acts" by simp_all
  from run_action_mode_removal [OF a, of w] obtain e1 where
    o1: "objects (run_action act w) = objects w"
    and e1: "arrays (run_action act w) = arrays w @ e1" by blast
  from Cons.IH [OF r, of "run_action act w"] obtain e2 where
    "objects (run_actions acts (run_action act w)) = objects (run_action act w)"
    and "arrays (run_actions acts (run_action act w)) = arrays (run_action act w) @ e2"
    by blast
  with o1 e1 show ?case unfolding step by simp
qed

lemma invoke_untouched:
  assumes "players_untouched U ev"
  shows "objects (invoke U t l ev args w) = objects w
       \<and> (\<exists>ext. arrays (invoke U t l ev args w) = arrays w @ ext)"
proof (cases "callback U l ev")
  case None
  then show ?thesis by (simp add: invoke_def)
next
  case (Some fn)
  with assms have "list_all mode_removal (fn args)" by (simp add: players_untouched_def)
  from run_actions_mode_removal [OF this, of "log (Callback t l ev args) w"] Some
  show ?thesis by (simp add: invoke_def)
qed

lemma emit_loop_untouched:
  assumes "players_untouched U ev"
  shows "\<exists>w'. emit_loop U t ev args a i w = Some w'
            \<and> objects w' = objects w \<and> (\<exists>ext. arrays w' = arrays w @ ext)"
proof (induction "length (array_at w a) - i" arbitrary: i w)
  case 0
  then have "\<not> i < length (array_at w a)" by simp
  then show ?case by (subst emit_loop.simps) simp
next
  case (Suc n)
  then have lt: "i < length (array_at w a)" by simp
  define w1 where "w1 = invoke U t (array_at w a ! i) ev args w"
  from lt have a: "a < length (arrays w)"
    by (auto simp: array_at_def split: if_splits)
  from invoke_untouched [OF assms, of t "array_at w a ! i" args w]
  obtain ext where o1: "objects w1 = objects w" and e1: "arrays w1 = arrays w @ ext"
    by (auto simp: w1_def)
  with a have same: "array_at w1 a = array_at w a"
    by (simp add: array_at_def nth_append)
  with Suc(2) have "n = length (array_at w1 a) - (i + 1)" by simp
  from Suc(1) [OF this] obtain w' ext' where
    "emit_loop U t ev args a (i + 1) w1 = Some w'" "objects w' = objects w1"
    "arrays w' = arrays w1 @ ext'"
    by blast
  with o1 e1 lt show ?case
    by (subst emit_loop.simps) (simp add: w1_def)
qed

lemma emit_untouched:
  assumes "players_untouched U ev"
  shows "\<exists>w'. emit U t ev args w = Some w'
            \<and> trace w' = trace w @ Emit t ev args
                 # map (\<lambda>l. Callback t l ev args) (filter (implements U ev) (listeners_of w t))
            \<and> objects w' = objects w \<and> (\<exists>ext. arrays w' = arrays w @ ext)"
proof -
  from emit_total [OF players_untouched_unsubscribe_only [OF assms], of t args w]
  obtain w' where e: "emit U t ev args w = Some w'"
    and t: "trace w' = trace w @ Emit t ev args
              # map (\<lambda>l. Callback t l ev args) (filter (implements U ev) (listeners_of w t))"
    by blast
  have "objects w' = objects w \<and> (\<exists>ext. arrays w' = arrays w @ ext)"
  proof (cases "listeners_ref w t")
    case None
    with e have "w' = log (Emit t ev args) w" by (simp add: emit_def)
    then show ?thesis by simp
  next
    case (Some a)
    with e have "emit_loop U t ev args a 0 (log (Emit t ev args) w) = Some w'"
      by (simp add: emit_def)
    with emit_loop_untouched [OF assms, of t args a 0 "log (Emit t ev args) w"]
    show ?thesis by auto
  qed
  with e t show ?thesis by blast
qed

lemma listeners_of_extend:
  assumes "objects w' = objects w" and "arrays w' = arrays w @ ext"
    and "p < length (objects w)" and "listeners (objects w ! p) < length (arrays w)"
  shows "listeners_of w' (LogicalPlayer p) = listeners_of w (LogicalPlayer p)"
  using assms by (simp add: listeners_of_def array_at_def nth_append)

lemma notify_others_untouched:
  assumes pu: "players_untouched U ''OnPlayerJoinGame''"
    and valid: "list_all (\<lambda>p. p < length (objects w)
                  \<and> listeners (objects w ! p) < length (arrays w)) others"
  shows "\<exists>w'. notify_others U B others w = Some w'
           \<and> trace w' = trace w @ concat (map (\<lambda>other. join_block B other
                            (filter (implements U ''OnPlayerJoinGame'')
                               (listeners_of w (LogicalPlayer other))))
                         (filter (\<lambda>other. other \<noteq> B) others))
           \<and> objects w' = objects w \<and> (\<exists>ext. arrays w' = arrays w @ ext)"
  using valid
proof (induction others arbitrary: w)
  case Nil
  show ?case by simp
next
  case (Cons other rest)
  from Cons.prems have vo: "other < length (objects w)"
      "listeners (objects w ! other) < length (arrays w)"
    and vr: "list_all (\<lambda>p. p < length (objects w)
                  \<and> listeners (objects w ! p) < length (arrays w)) rest"
    by simp_all
  show ?case
  proof (cases "other = B")
    case True
    with Cons.IH [OF vr] show ?thesis by simp
  next
    case False
    from emit_untouched [OF pu, of "LogicalPlayer other" "[LP B]" w]
    obtain w1 ext where
      e: "emit U (LogicalPlayer other) ''OnPlayerJoinGame'' [LP B] w = Some w1"
      and t1: "trace w1 = trace w @ join_block B other
                 (filter (implements U ''OnPlayerJoinGame'') (listeners_of w (LogicalPlayer other)))"
      and o1: "objects w1 = objects w" and a1: "arrays w1 = arrays w @ ext"
      by (auto simp: join_block_def)
    from vr o1 a1 have vr1: "list_all (\<lambda>p. p < length (objects w1)
                  \<and> listeners (objects w1 ! p) < length (arrays w1)) rest"
      by (auto simp: list_all_iff)
    from Cons.IH [OF vr1] obtain w' ext' where
      n: "notify_others U B rest w1 = Some w'"
      and t2: "trace w' = trace w1 @ concat (map (\<lambda>other. join_block B other
                            (filter (implements U ''OnPlayerJoinGame'')
                               (listeners_of w1 (LogicalPlayer other))))
                         (filter (\<lambda>other. other \<noteq> B) rest))"
      and o2: "objects w' = objects w1" and a2: "arrays w' = arrays w1 @ ext'"
      by blast
    have same: "listeners_of w1 (LogicalPlayer p) = listeners_of w (LogicalPlayer p)"
      if "p \<in> set rest" for p
      using that vr listeners_of_extend [OF o1 a1, of p] by (auto simp: list_all_iff)
    have "map (\<lambda>other. join_block B other
                 (filter (implements U ''OnPlayerJoinGame'') (listeners_of w1 (LogicalPlayer other))))
            (filter (\<lambda>other. other \<noteq> B) rest)
        = map (\<lambda>other. join_block B other
                 (filter (implements U ''OnPlayerJoinGame'') (listeners_of w (LogicalPlayer other))))
            (filter (\<lambda>other. other \<noteq> B) rest)"
      by (rule map_cong) (auto simp: same)
    with t1 t2 have "trace w' = trace w @ concat (map (\<lambda>other. join_block B other
                            (filter (implements U ''OnPlayerJoinGame'')
                               (listeners_of w (LogicalPlayer other))))
                         (filter (\<lambda>other. other \<noteq> B) (other # rest)))"
      using False by simp
    moreover from e n False have "notify_others U B (other # rest) w = Some w'" by simp
    moreover from o1 o2 have "objects w' = objects w" by simp
    moreover from a1 a2 have "\<exists>ext. arrays w' = arrays w @ ext" by simp
    ultimately show ?thesis by blast
  qed
qed

lemma notify_others_blocks:
  assumes "notify_others U B others w = Some w'"
  shows "\<exists>lss. length lss = length (filter (\<lambda>other. other \<noteq> B) others)
           \<and> trace w' = trace w
                @ concat (map2 (join_block B) (filter (\<lambda>other. other \<noteq> B) others) lss)"
  using assms
proof (induction others arbitrary: w)
  case Nil
  then show ?case by simp
next
  case (Cons other rest)
  show ?case
  proof (cases "other = B")
    case True
    with Cons.prems have "notify_others U B rest w = Some w'" by simp
    from Cons.IH [OF this] True show ?thesis by simp
  next
    case False
    with Cons.prems obtain w1 where
      e: "emit U (LogicalPlayer other) ''OnPlayerJoinGame'' [LP B] w = Some w1"
      and n: "notify_others U B rest w1 = Some w'"
      by (auto split: option.splits)
    from emit_sound(1) [OF e] obtain ls where
      t1: "trace w1 = trace w @ join_block B other ls"
      by (auto simp: join_block_def)
    from Cons.IH [OF n] obtain lss where
      l: "length lss = length (filter (\<lambda>other. other \<noteq> B) rest)"
      and t2: "trace w' = trace w1
                 @ concat (map2 (join_block B) (filter (\<lambda>other. other \<noteq> B) rest) lss)"
      by blast
    from l t1 t2 False
    have "length (ls # lss) = length (filter (\<lambda>other. other \<noteq> B) (other # rest))
        \<and> trace w' = trace w
             @ concat (map2 (join_block B) (filter (\<lambda>other. other \<noteq> B) (other # rest)) (ls # lss))"
      by simp
    then show ?thesis by blast
  qed
qed

lemma example_code_unsubscribe_only [simp]: "unsubscribe_only example_code ev"
  by (simp add: unsubscribe_only_def example_code_def split: if_splits)

lemma wf_example_world [simp]: "wf_world example_world"
  by (simp add: wf_world_def example_world_def allPlayers_def)

text \<open>
  Claim C1. A join of a handle \<open>b\<close> whose id is not registered builds a new logical player
  \<open>B\<close>, an object of the heap that wraps \<open>b\<close>, and writes it into the registry before
  anything is emitted. What follows in the log is one block per logical player registered
  before, in registry order: the emit of \<^verbatim>\<open>OnPlayerJoinGame\<close> on that player with \<open>B\<close> as
  the argument, exactly once, and then the callbacks that emit reaches; every emit and
  every callback of the join is on a subject other than \<open>B\<close>. With one player \<open>A\<close>
  registered and callbacks that do not subscribe, the join returns and the block of \<open>A\<close>
  has one callback per listener of \<open>A\<close> that implements the capability. With any number of
  players registered and callbacks that leave the listener lists of the players alone,
  the join returns, the block of every registered player has one callback per listener of
  that player that implements the capability, in subscription order, and \<open>B\<close> carries the
  listeners its constructor subscribed.
\<close>

theorem join_notifies_the_others_once:
  assumes "wf_world w" and "getById w (GetObjId b) = None"
  shows "(\<forall>B w'. addPlayer U b w = Some (B, w') \<longrightarrow>
            B = length (objects w) \<and> B \<notin> set (allPlayers w)
          \<and> map player (objects w') = map player (objects w) @ [b]
          \<and> B < length (objects w') \<and> player (objects w' ! B) = b
          \<and> players w' = players w @ [(GetObjId b, B)]
          \<and> getById w' (GetObjId b) = Some B
          \<and> (\<exists>rest lss. trace w' = trace w @ MapSet (GetObjId b) B # rest
                \<and> filter is_emit rest
                    = map (\<lambda>other. Emit (LogicalPlayer other) ''OnPlayerJoinGame'' [LP B])
                        (allPlayers w)
                \<and> list_all (join_notice B) rest
                \<and> length lss = length (allPlayers w)
                \<and> rest = concat (map2 (join_block B) (allPlayers w) lss)))
       \<and> (unsubscribe_only U ''OnPlayerJoinGame'' \<and> allPlayers w = [A] \<longrightarrow>
            (\<exists>B w'. addPlayer U b w = Some (B, w')
                \<and> trace w' = trace w @ MapSet (GetObjId b) B
                     # Emit (LogicalPlayer A) ''OnPlayerJoinGame'' [LP B]
                     # map (\<lambda>l. Callback (LogicalPlayer A) l ''OnPlayerJoinGame'' [LP B])
                         (filter (implements U ''OnPlayerJoinGame'')
                            (listeners_of w (LogicalPlayer A)))))
       \<and> (players_untouched U ''OnPlayerJoinGame'' \<longrightarrow>
            (\<exists>B w'. addPlayer U b w = Some (B, w')
                \<and> trace w' = trace w @ MapSet (GetObjId b) B
                     # concat (map (\<lambda>other. join_block B other
                                 (filter (implements U ''OnPlayerJoinGame'')
                                    (listeners_of w (LogicalPlayer other))))
                               (allPlayers w))
                \<and> listeners_of w' (LogicalPlayer B) = constructor_listeners U b))"
proof -
  let ?B = "length (objects w)"
  let ?w2 = "log (MapSet (GetObjId b) ?B)
             (w\<lparr>arrays := arrays w @ [constructor_listeners U b],
                objects := objects w @ [\<lparr>player = b, listeners = length (arrays w)\<rparr>],
                players := players w @ [(GetObjId b, ?B)]\<rparr>)"
  have others: "filter (\<lambda>other. other \<noteq> ?B) (allPlayers w @ [?B]) = allPlayers w"
    using wf_world_others [OF assms(1)] by simp
  have valid: "list_all (\<lambda>p. p < length (objects w)
                  \<and> listeners (objects w ! p) < length (arrays w)) (allPlayers w)"
    using assms(1) by (auto simp: wf_world_def list_all_iff)
  have same: "listeners_of ?w2 (LogicalPlayer p) = listeners_of w (LogicalPlayer p)"
    if "p \<in> set (allPlayers w)" for p
    using that valid
    by (auto simp: listeners_of_def log_def array_at_def nth_append list_all_iff)
  have general: "B = length (objects w) \<and> B \<notin> set (allPlayers w)
          \<and> map player (objects w') = map player (objects w) @ [b]
          \<and> B < length (objects w') \<and> player (objects w' ! B) = b
          \<and> players w' = players w @ [(GetObjId b, B)]
          \<and> getById w' (GetObjId b) = Some B
          \<and> (\<exists>rest lss. trace w' = trace w @ MapSet (GetObjId b) B # rest
                \<and> filter is_emit rest
                    = map (\<lambda>other. Emit (LogicalPlayer other) ''OnPlayerJoinGame'' [LP B])
                        (allPlayers w)
                \<and> list_all (join_notice B) rest
                \<and> length lss = length (allPlayers w)
                \<and> rest = concat (map2 (join_block B) (allPlayers w) lss))"
    if ret: "addPlayer U b w = Some (B, w')" for B w'
  proof -
    note s = addPlayer_sound [OF assms(2) ret]
    from ret addPlayer_new [OF assms(2), of U]
    have n: "notify_others U ?B (allPlayers w @ [?B]) ?w2 = Some w'" by auto
    from notify_others_sound [OF n] have k: "keeps_registry ?w2 w'" by blast
    then have mp: "map player (objects w') = map player (objects w) @ [b]"
      by (simp add: keeps_registry_def)
    from s(1) s(4) have lt: "B < length (objects w')" by simp
    from mp s(1) have pl: "player (objects w' ! B) = b"
      by (metis length_map nth_append_length nth_map lt s(1))
    from s(1,2) assms(2) have g: "getById w' (GetObjId b) = Some B"
      by (simp add: getById_append)
    from s(1) wf_world_fresh [OF assms(1)] have fresh: "B \<notin> set (allPlayers w)" by simp
    from s(6) s(1) wf_world_others [OF assms(1)] obtain rest where
      t: "trace w' = trace w @ MapSet (GetObjId b) B # rest"
      and f: "filter is_emit rest
              = map (\<lambda>other. Emit (LogicalPlayer other) ''OnPlayerJoinGame'' [LP B])
                  (allPlayers w)"
      and a: "list_all (join_notice B) rest"
      by auto
    from notify_others_blocks [OF n] others obtain lss where
      l: "length lss = length (allPlayers w)"
      and tb: "trace w' = trace ?w2 @ concat (map2 (join_block ?B) (allPlayers w) lss)"
      by auto
    from t tb s(1) have "rest = concat (map2 (join_block B) (allPlayers w) lss)" by simp
    with s(1) fresh mp lt pl s(2) g t f a l show ?thesis by blast
  qed
  have single: "\<exists>B w'. addPlayer U b w = Some (B, w')
                \<and> trace w' = trace w @ MapSet (GetObjId b) B
                     # Emit (LogicalPlayer A) ''OnPlayerJoinGame'' [LP B]
                     # map (\<lambda>l. Callback (LogicalPlayer A) l ''OnPlayerJoinGame'' [LP B])
                         (filter (implements U ''OnPlayerJoinGame'')
                            (listeners_of w (LogicalPlayer A)))"
    if h: "unsubscribe_only U ''OnPlayerJoinGame'' \<and> allPlayers w = [A]"
  proof -
    from h have sA: "listeners_of ?w2 (LogicalPlayer A) = listeners_of w (LogicalPlayer A)"
      using same [of A] by simp
    from h wf_world_fresh [OF assms(1)] have A: "A \<noteq> ?B" by auto
    from h emit_total [of U "''OnPlayerJoinGame''" "LogicalPlayer A" "[LP ?B]" ?w2]
    obtain w' where e: "emit U (LogicalPlayer A) ''OnPlayerJoinGame'' [LP ?B] ?w2 = Some w'"
      and t: "trace w' = trace ?w2 @ Emit (LogicalPlayer A) ''OnPlayerJoinGame'' [LP ?B]
                # map (\<lambda>l. Callback (LogicalPlayer A) l ''OnPlayerJoinGame'' [LP ?B])
                    (filter (implements U ''OnPlayerJoinGame'')
                       (listeners_of ?w2 (LogicalPlayer A)))"
      by blast
    from A h e have "addPlayer U b w = Some (?B, w')"
      by (simp add: addPlayer_new [OF assms(2)])
    with t sA show ?thesis by simp
  qed
  have exact: "\<exists>B w'. addPlayer U b w = Some (B, w')
                \<and> trace w' = trace w @ MapSet (GetObjId b) B
                     # concat (map (\<lambda>other. join_block B other
                                 (filter (implements U ''OnPlayerJoinGame'')
                                    (listeners_of w (LogicalPlayer other))))
                               (allPlayers w))
                \<and> listeners_of w' (LogicalPlayer B) = constructor_listeners U b"
    if pu: "players_untouched U ''OnPlayerJoinGame''"
  proof -
    have valid2: "list_all (\<lambda>p. p < length (objects ?w2)
                  \<and> listeners (objects ?w2 ! p) < length (arrays ?w2)) (allPlayers w @ [?B])"
      using valid by (auto simp: list_all_iff nth_append)
    from notify_others_untouched [OF pu valid2, of ?B] others obtain w' ext where
      n: "notify_others U ?B (allPlayers w @ [?B]) ?w2 = Some w'"
      and t: "trace w' = trace ?w2 @ concat (map (\<lambda>other. join_block ?B other
                            (filter (implements U ''OnPlayerJoinGame'')
                               (listeners_of ?w2 (LogicalPlayer other))))
                         (allPlayers w))"
      and o: "objects w' = objects ?w2" and a: "arrays w' = arrays ?w2 @ ext"
      by auto
    have meq: "map (\<lambda>other. join_block ?B other
                 (filter (implements U ''OnPlayerJoinGame'') (listeners_of ?w2 (LogicalPlayer other))))
            (allPlayers w)
        = map (\<lambda>other. join_block ?B other
                 (filter (implements U ''OnPlayerJoinGame'') (listeners_of w (LogicalPlayer other))))
            (allPlayers w)"
      by (rule map_cong) (use same in auto)
    from t [unfolded meq] have t': "trace w' = trace w @ MapSet (GetObjId b) ?B
                     # concat (map (\<lambda>other. join_block ?B other
                                 (filter (implements U ''OnPlayerJoinGame'')
                                    (listeners_of w (LogicalPlayer other))))
                               (allPlayers w))"
      by simp
    from o a have "listeners_of w' (LogicalPlayer ?B) = constructor_listeners U b"
      by (simp add: listeners_of_def array_at_def nth_append)
    moreover from n have "addPlayer U b w = Some (?B, w')"
      by (simp add: addPlayer_new [OF assms(2)])
    ultimately show ?thesis using t' by blast
  qed
  from general single exact show ?thesis by blast
qed

lemma example_code_players_untouched [simp]: "players_untouched example_code ''OnPlayerJoinGame''"
  by (simp add: players_untouched_def example_code_def split: if_splits)

lemma wf_two_player_world [simp]: "wf_world two_player_world"
  by (simp add: wf_world_def two_player_world_def allPlayers_def)

theorem join_notifies_the_others_once_witness:
  "wf_world two_player_world
   \<and> getById two_player_world (GetObjId (Player 9 True)) = None
   \<and> players_untouched example_code ''OnPlayerJoinGame''
   \<and> allPlayers two_player_world = [0, 1]
   \<and> (\<exists>w'. addPlayer example_code (Player 9 True) two_player_world = Some (2, w')
          \<and> getById w' 9 = Some 2
          \<and> player (objects w' ! 2) = Player 9 True
          \<and> listeners_of w' (LogicalPlayer 2) = [29]
          \<and> trace w' = [MapSet 9 2,
                         Emit (LogicalPlayer 0) ''OnPlayerJoinGame'' [LP 2],
                         Callback (LogicalPlayer 0) 27 ''OnPlayerJoinGame'' [LP 2],
                         Emit (LogicalPlayer 1) ''OnPlayerJoinGame'' [LP 2],
                         Callback (LogicalPlayer 1) 28 ''OnPlayerJoinGame'' [LP 2]])"
proof -
  have wf: "wf_world two_player_world" by simp
  have absent: "getById two_player_world (GetObjId (Player 9 True)) = None"
    by (simp add: getById_def two_player_world_def)
  have ps: "allPlayers two_player_world = [0, 1]"
    by (simp add: allPlayers_def two_player_world_def)
  have l0: "filter (implements example_code ''OnPlayerJoinGame'')
              (listeners_of two_player_world (LogicalPlayer 0)) = [27]"
    and l1: "filter (implements example_code ''OnPlayerJoinGame'')
              (listeners_of two_player_world (LogicalPlayer 1)) = [28]"
    by (simp_all add: listeners_of_def two_player_world_def array_at_def implements_def
          example_code_def)
  have tr: "trace two_player_world = []" by (simp add: two_player_world_def)
  have n: "length (objects two_player_world) = 2" by (simp add: two_player_world_def)
  have cl: "constructor_listeners example_code (Player 9 True) = [29]"
    by (simp add: example_code_def)
  note inst = join_notifies_the_others_once [OF wf absent, of example_code 0]
  from inst obtain B w' where
    r: "addPlayer example_code (Player 9 True) two_player_world = Some (B, w')"
    and t: "trace w' = trace two_player_world @ MapSet (GetObjId (Player 9 True)) B
              # concat (map (\<lambda>other. join_block B other
                          (filter (implements example_code ''OnPlayerJoinGame'')
                             (listeners_of two_player_world (LogicalPlayer other))))
                        (allPlayers two_player_world))"
    and ls: "listeners_of w' (LogicalPlayer B) = constructor_listeners example_code (Player 9 True)"
    by auto
  from inst r have B: "B = length (objects two_player_world)"
    and pl: "player (objects w' ! B) = Player 9 True"
    and g: "getById w' (GetObjId (Player 9 True)) = Some B"
    by blast+
  from r t ls B pl g n ps l0 l1 tr cl wf absent show ?thesis
    by (simp add: join_block_def)
qed

section \<open>Dispatch to hooks\<close>


text \<open>The log of a dispatch to one resolved player: the emit, the callbacks, then the
  hook.\<close>

lemma dispatch_sound:
  assumes "forward U name a args w = Some w1"
  shows "\<exists>ls. trace (run_hook U name hargs w1)
               = trace w @ Emit (LogicalPlayer a) name args
                   # map (\<lambda>l. Callback (LogicalPlayer a) l name args) ls @ [Hook name hargs]
             \<and> prefix (filter (implements U name) (listeners_of w (LogicalPlayer a))) ls"
  using emit_sound(1) [of U "LogicalPlayer a" name args w w1] assms
  by (auto simp: forward_def)

text \<open>
  With a manager in place, a two-player event whose acting handle does not resolve is
  dropped: the world, and with it the log, stays as it was. When the acting handle
  resolves to \<open>a\<close> and only the other handle does not resolve, the event is neither
  dropped nor does it throw: whenever it returns, the callbacks of \<open>a\<close> and then the hook
  have been invoked with \<^verbatim>\<open>undefined\<close> in the place of the other player, and it does
  return when the callbacks of the event do not subscribe.
\<close>

lemma two_player_event_with_manager:
  assumes "playerManager w"
  shows "(get w p = None \<longrightarrow> internal U (TwoPlayerEvent name p q args) w = Some (Inr w))
       \<and> (get w p = Some a \<and> get w q = None \<longrightarrow>
            internal U (TwoPlayerEvent name p q args) w \<noteq> Some (Inr w)
          \<and> (\<forall>e. internal U (TwoPlayerEvent name p q args) w \<noteq> Some (Inl e))
          \<and> (\<forall>w'. internal U (TwoPlayerEvent name p q args) w = Some (Inr w') \<longrightarrow>
                (\<exists>ls. trace w'
                     = trace w @ Emit (LogicalPlayer a) name (Undefined # args)
                         # map (\<lambda>l. Callback (LogicalPlayer a) l name (Undefined # args)) ls
                         @ [Hook name (LP a # Undefined # args)]
                   \<and> prefix (filter (implements U name) (listeners_of w (LogicalPlayer a))) ls))
          \<and> (unsubscribe_only U name \<longrightarrow>
                (\<exists>w'. internal U (TwoPlayerEvent name p q args) w = Some (Inr w'))))"
proof (intro conjI impI allI)
  assume "get w p = None"
  with assms show "internal U (TwoPlayerEvent name p q args) w = Some (Inr w)"
    by (simp add: lp_def)
next
  assume h: "get w p = Some a \<and> get w q = None"
  with assms have eq: "internal U (TwoPlayerEvent name p q args) w
      = (case forward U name a (Undefined # args) w of
           None \<Rightarrow> None
         | Some w1 \<Rightarrow> Some (Inr (run_hook U name (LP a # Undefined # args) w1)))"
    by (simp add: lp_def split: option.splits)
  show "internal U (TwoPlayerEvent name p q args) w \<noteq> Some (Inr w)"
  proof
    assume "internal U (TwoPlayerEvent name p q args) w = Some (Inr w)"
    with eq obtain w1 where f: "forward U name a (Undefined # args) w = Some w1"
      and "run_hook U name (LP a # Undefined # args) w1 = w"
      by (auto split: option.splits)
    with dispatch_sound [OF f, of "LP a # Undefined # args"] show False by auto
  qed
  show "\<And>e. internal U (TwoPlayerEvent name p q args) w \<noteq> Some (Inl e)"
    using eq by (simp split: option.splits)
  show "\<And>w'. internal U (TwoPlayerEvent name p q args) w = Some (Inr w') \<Longrightarrow>
          \<exists>ls. trace w'
                 = trace w @ Emit (LogicalPlayer a) name (Undefined # args)
                     # map (\<lambda>l. Callback (LogicalPlayer a) l name (Undefined # args)) ls
                     @ [Hook name (LP a # Undefined # args)]
               \<and> prefix (filter (implements U name) (listeners_of w (LogicalPlayer a))) ls"
  proof -
    fix w'
    assume "internal U (TwoPlayerEvent name p q args) w = Some (Inr w')"
    with eq obtain w1 where f: "forward U name a (Undefined # args) w = Some w1"
      and w': "w' = run_hook U name (LP a # Undefined # args) w1"
      by (auto split: option.splits)
    from dispatch_sound [OF f, of "LP a # Undefined # args"] w'
    show "\<exists>ls. trace w'
                 = trace w @ Emit (LogicalPlayer a) name (Undefined # args)
                     # map (\<lambda>l. Callback (LogicalPlayer a) l name (Undefined # args)) ls
                     @ [Hook name (LP a # Undefined # args)]
               \<and> prefix (filter (implements U name) (listeners_of w (LogicalPlayer a))) ls"
      by simp
  qed
  show "\<exists>w'. internal U (TwoPlayerEvent name p q args) w = Some (Inr w')"
    if "unsubscribe_only U name"
    using emit_total [OF that, of "LogicalPlayer a" "Undefined # args" w] eq
    by (auto simp: forward_def)
qed

lemma example_damage:
  "map_option (map_sum (\<lambda>e. e) trace)
     (internal example_code
        (OnPlayerDamaged (Player 7 True) (Player 8 True) (Engine 1) (Engine 2)) example_world)
   = Some (Inr [Emit (LogicalPlayer 0) ''OnPlayerDamaged'' [Undefined, Engine 1, Engine 2],
                Callback (LogicalPlayer 0) 27 ''OnPlayerDamaged'' [Undefined, Engine 1, Engine 2],
                Hook ''OnPlayerDamaged'' [LP 0, Undefined, Engine 1, Engine 2]])"
  by (simp add: OnPlayerDamaged_def lp_def get_def example_world_def forward_def emit_def
        log_def emit_loop.simps array_at_def invoke_def example_code_def run_actions_def
        run_hook_def)

lemma two_player_event_with_manager_example:
  "playerManager example_world
   \<and> get example_world (Player 8 True) = None
   \<and> internal example_code
        (OnPlayerDamaged (Player 8 True) (Player 7 True) (Engine 1) (Engine 2)) example_world
       = Some (Inr example_world)
   \<and> get example_world (Player 7 True) = Some 0
   \<and> (\<exists>w'. internal example_code
        (OnPlayerDamaged (Player 7 True) (Player 8 True) (Engine 1) (Engine 2)) example_world
        = Some (Inr w')
        \<and> trace w' =
            [Emit (LogicalPlayer 0) ''OnPlayerDamaged'' [Undefined, Engine 1, Engine 2],
             Callback (LogicalPlayer 0) 27 ''OnPlayerDamaged'' [Undefined, Engine 1, Engine 2],
             Hook ''OnPlayerDamaged'' [LP 0, Undefined, Engine 1, Engine 2]])"
proof -
  have pm: "playerManager example_world" by (simp add: example_world_def)
  have g8: "get example_world (Player 8 True) = None"
    and g7: "get example_world (Player 7 True) = Some 0"
    by (simp_all add: get_def example_world_def)
  from two_player_event_with_manager [OF pm, of "Player 8 True" example_code "''OnPlayerDamaged''"
      "Player 7 True" "[Engine 1, Engine 2]" 0] g8
  have dropped: "internal example_code
        (OnPlayerDamaged (Player 8 True) (Player 7 True) (Engine 1) (Engine 2)) example_world
       = Some (Inr example_world)"
    by (simp add: OnPlayerDamaged_def)
  from two_player_event_with_manager [OF pm, of "Player 7 True" example_code "''OnPlayerDamaged''"
      "Player 8 True" "[Engine 1, Engine 2]" 0] g7 g8
  obtain w' where r: "internal example_code
        (OnPlayerDamaged (Player 7 True) (Player 8 True) (Engine 1) (Engine 2)) example_world
        = Some (Inr w')"
    by (auto simp: OnPlayerDamaged_def)
  with example_damage have "trace w' =
            [Emit (LogicalPlayer 0) ''OnPlayerDamaged'' [Undefined, Engine 1, Engine 2],
             Callback (LogicalPlayer 0) 27 ''OnPlayerDamaged'' [Undefined, Engine 1, Engine 2],
             Hook ''OnPlayerDamaged'' [LP 0, Undefined, Engine 1, Engine 2]]"
    by simp
  with pm g8 g7 dropped r show ?thesis by blast
qed

text \<open>
  Claim C5, at the input where the code departs from it: on a mode that has seen no join
  the acting handle of a two-player event resolves to no registered logical player, yet
  none of the six entry points drops the event. Each of them throws, because \<^verbatim>\<open>lp\<close>
  dereferences the manager that does not exist yet.
\<close>

theorem two_player_events_before_first_join_throw:
  "internal U (OnMandown p q) new_mode = Some (Inl TypeError)
   \<and> internal U (OnPlayerDamaged p q damageType weapon) new_mode = Some (Inl TypeError)
   \<and> internal U (OnPlayerDied p q deathType weapon) new_mode = Some (Inl TypeError)
   \<and> internal U (OnPlayerEarnedKill p q deathType weapon) new_mode = Some (Inl TypeError)
   \<and> internal U (OnPlayerEarnedKillAssist p q) new_mode = Some (Inl TypeError)
   \<and> internal U (OnRevived p q) new_mode = Some (Inl TypeError)"
  by (simp add: OnMandown_def OnPlayerDamaged_def OnPlayerDied_def OnPlayerEarnedKill_def
        OnPlayerEarnedKillAssist_def OnRevived_def lp_def new_mode_def)

section \<open>Publishing\<close>


text \<open>
  Claim C7. Whenever the global tick returns, its log is the emit on the mode, one callback
  per visited observer, and then the hook \<^verbatim>\<open>OngoingGlobal\<close> as the last entry; the
  observers subscribed when the tick fired that implement the capability are visited first,
  in subscription order. When the callbacks of the tick do not subscribe, the tick returns
  and exactly these observers are invoked, once per subscription; an observer that does
  not implement the capability has no entry.
\<close>

theorem global_tick_observers_then_hook:
  "(\<forall>w'. internal U OngoingGlobal w = Some (Inr w') \<longrightarrow>
      (\<exists>ls. trace w' = trace w @ Emit Mode ''OngoingGlobal'' []
                # map (\<lambda>l. Callback Mode l ''OngoingGlobal'' []) ls
                @ [Hook ''OngoingGlobal'' []]
           \<and> prefix (filter (implements U ''OngoingGlobal'') (listeners_of w Mode)) ls))
   \<and> (unsubscribe_only U ''OngoingGlobal'' \<longrightarrow>
      (\<exists>w'. internal U OngoingGlobal w = Some (Inr w')
           \<and> trace w' = trace w @ Emit Mode ''OngoingGlobal'' []
                # map (\<lambda>l. Callback Mode l ''OngoingGlobal'' [])
                    (filter (implements U ''OngoingGlobal'') (listeners_of w Mode))
                @ [Hook ''OngoingGlobal'' []]))"
proof (intro conjI allI impI)
  fix w'
  assume "internal U OngoingGlobal w = Some (Inr w')"
  then obtain w1 where e: "emit U Mode ''OngoingGlobal'' [] w = Some w1"
    and w': "w' = run_hook U ''OngoingGlobal'' [] w1"
    by (auto split: option.splits)
  from emit_sound(1) [OF e] w'
  show "\<exists>ls. trace w' = trace w @ Emit Mode ''OngoingGlobal'' []
                # map (\<lambda>l. Callback Mode l ''OngoingGlobal'' []) ls
                @ [Hook ''OngoingGlobal'' []]
           \<and> prefix (filter (implements U ''OngoingGlobal'') (listeners_of w Mode)) ls"
    by auto
next
  assume "unsubscribe_only U ''OngoingGlobal''"
  from emit_total [OF this, of Mode "[]" w]
  show "\<exists>w'. internal U OngoingGlobal w = Some (Inr w')
           \<and> trace w' = trace w @ Emit Mode ''OngoingGlobal'' []
                # map (\<lambda>l. Callback Mode l ''OngoingGlobal'' [])
                    (filter (implements U ''OngoingGlobal'') (listeners_of w Mode))
                @ [Hook ''OngoingGlobal'' []]"
    by auto
qed

theorem global_tick_observers_then_hook_witness:
  "unsubscribe_only example_code ''OngoingGlobal''
   \<and> listeners_of example_world Mode = [1, 2, 3]
   \<and> filter (implements example_code ''OngoingGlobal'') [1, 2, 3] = [1, 2]
   \<and> (\<exists>w'. internal example_code OngoingGlobal example_world = Some (Inr w')
          \<and> trace w' = [Emit Mode ''OngoingGlobal'' [], Callback Mode 1 ''OngoingGlobal'' [],
                         Callback Mode 2 ''OngoingGlobal'' [], Hook ''OngoingGlobal'' []])"
proof -
  have ls: "listeners_of example_world Mode = [1, 2, 3]"
    by (simp add: listeners_of_def example_world_def array_at_def)
  have im: "filter (implements example_code ''OngoingGlobal'') [1, 2, 3] = [1, 2]"
    by (simp add: implements_def example_code_def)
  have tr: "trace example_world = []" by (simp add: example_world_def)
  from global_tick_observers_then_hook [of example_code example_world] ls im tr
  show ?thesis by simp
qed

text \<open>
  Claim C9. Whenever an emit returns, every listener that was subscribed when it began and
  implements the event has been invoked, in subscription order, before any listener added
  meanwhile. When the callbacks of the event only unsubscribe, whatever they remove and
  from whichever subject, the emit returns and its log is exactly one callback per
  listener subscribed at the start: a listener removed during the emit still receives the
  event.
\<close>

theorem removal_during_emit_is_not_seen:
  "(\<forall>w'. emit U t ev args w = Some w' \<longrightarrow>
      (\<exists>ls. trace w' = trace w @ Emit t ev args # map (\<lambda>l. Callback t l ev args) ls
           \<and> prefix (filter (implements U ev) (listeners_of w t)) ls))
   \<and> (unsubscribe_only U ev \<longrightarrow>
      (\<exists>w'. emit U t ev args w = Some w'
           \<and> trace w' = trace w @ Emit t ev args
                # map (\<lambda>l. Callback t l ev args) (filter (implements U ev) (listeners_of w t))))"
  using emit_sound(1) [of U t ev args w] emit_total [of U ev t args w] by blast

lemma example_emit:
  "map_option (\<lambda>w. (trace w, listeners_of w Mode))
     (emit example_code Mode ''OngoingGlobal'' [] example_world)
   = Some ([Emit Mode ''OngoingGlobal'' [], Callback Mode 1 ''OngoingGlobal'' [],
            Callback Mode 2 ''OngoingGlobal'' []], [1, 3])"
  by (simp add: example_world_def emit_def log_def emit_loop.simps array_at_def invoke_def
        example_code_def run_actions_def removeListener_def new_array_def listeners_of_def)

theorem removal_during_emit_is_not_seen_witness:
  "unsubscribe_only example_code ''OngoingGlobal''
   \<and> callback example_code 1 ''OngoingGlobal'' = Some (\<lambda>args. [CallRemoveListener Mode 2])
   \<and> listeners_of example_world Mode = [1, 2, 3]
   \<and> (\<exists>w'. emit example_code Mode ''OngoingGlobal'' [] example_world = Some w'
          \<and> trace w' = [Emit Mode ''OngoingGlobal'' [], Callback Mode 1 ''OngoingGlobal'' [],
                         Callback Mode 2 ''OngoingGlobal'' []]
          \<and> listeners_of w' Mode = [1, 3])"
proof -
  have ls: "listeners_of example_world Mode = [1, 2, 3]"
    by (simp add: listeners_of_def example_world_def array_at_def)
  have cb: "callback example_code 1 ''OngoingGlobal'' = Some (\<lambda>args. [CallRemoveListener Mode 2])"
    by (simp add: example_code_def)
  from removal_during_emit_is_not_seen [of example_code Mode "''OngoingGlobal''" "[]" example_world]
  obtain w' where r: "emit example_code Mode ''OngoingGlobal'' [] example_world = Some w'"
    by auto
  with example_emit have "trace w' = [Emit Mode ''OngoingGlobal'' [],
        Callback Mode 1 ''OngoingGlobal'' [], Callback Mode 2 ''OngoingGlobal'' []]"
    and "listeners_of w' Mode = [1, 3]" by simp_all
  with ls cb r show ?thesis by simp
qed

section \<open>Order of manager update and hook\<close>


lemma returned_with:
  "map_option (map_sum id f) r = Some (Inr y) \<Longrightarrow> \<exists>w'. r = Some (Inr w') \<and> f w' = y"
proof (cases r)
  case None
  assume "map_option (map_sum id f) r = Some (Inr y)"
  with None show ?thesis by simp
next
  case (Some x)
  assume "map_option (map_sum id f) r = Some (Inr y)"
  with Some show ?thesis by (cases x) simp_all
qed

lemma hook_last_snoc: "list_all (\<lambda>x. \<not> is_hook x) pre \<Longrightarrow> hook_last (pre @ [x])"
  by (simp add: hook_last_def)

lemma callbacks_not_hooks:
  "list_all (\<lambda>x. \<not> is_hook x) (Emit t ev args # map (\<lambda>l. Callback t l ev args) ls)"
  by (simp add: list_all_iff)

lemma dispatch_hook_last:
  assumes "emit U t ev args w = Some w1"
  shows "\<exists>delta. trace (run_hook U name hargs w1) = trace w @ delta \<and> hook_last delta
            \<and> (delta = [] \<or> is_hook (last delta))"
proof -
  from emit_sound(1) [OF assms] obtain ls where
    t: "trace w1 = trace w @ Emit t ev args # map (\<lambda>l. Callback t l ev args) ls" by blast
  let ?pre = "Emit t ev args # map (\<lambda>l. Callback t l ev args) ls"
  have "trace (run_hook U name hargs w1) = trace w @ (?pre @ [Hook name hargs])"
    using t by simp
  moreover have "hook_last (?pre @ [Hook name hargs])"
    by (rule hook_last_snoc [OF callbacks_not_hooks])
  moreover have "is_hook (last (?pre @ [Hook name hargs]))" by simp
  ultimately show ?thesis by blast
qed

lemma hook_only:
  "\<exists>delta. trace (run_hook U name hargs w) = trace w @ delta \<and> hook_last delta
      \<and> (delta = [] \<or> is_hook (last delta))"
proof -
  have "trace (run_hook U name hargs w) = trace w @ [Hook name hargs]" by simp
  moreover have "hook_last [Hook name hargs]" by (simp add: hook_last_def)
  ultimately show ?thesis by force
qed

lemma nothing_logged:
  "\<exists>delta. trace w = trace w @ delta \<and> hook_last delta \<and> (delta = [] \<or> is_hook (last delta))"
  by (simp add: hook_last_def)

lemma join_hook_last:
  assumes "addPlayer U p w0 = Some (B, w1)"
  shows "\<exists>delta. trace (run_hook U name hargs w1) = trace w0 @ delta \<and> hook_last delta
            \<and> (delta = [] \<or> is_hook (last delta))"
proof (cases "getById w0 (GetObjId p)")
  case (Some x)
  with assms have "w1 = w0" by (simp add: addPlayer_def getById_def)
  then show ?thesis using hook_only [of U name hargs w0] by simp
next
  case None
  from addPlayer_sound(6) [OF None assms] obtain rest where
    t: "trace w1 = trace w0 @ MapSet (GetObjId p) B # rest"
    and a: "list_all (join_notice B) rest" by blast
  let ?pre = "MapSet (GetObjId p) B # rest"
  from a have "list_all (\<lambda>x. \<not> is_hook x) ?pre"
    by (auto simp: list_all_iff dest: join_notice_not_hook)
  then have "hook_last (?pre @ [Hook name hargs])" by (rule hook_last_snoc)
  moreover have "trace (run_hook U name hargs w1) = trace w0 @ (?pre @ [Hook name hargs])"
    using t by simp
  moreover have "is_hook (last (?pre @ [Hook name hargs]))" by simp
  ultimately show ?thesis by blast
qed

text \<open>
  Claim C4, as amended. For every entry point other than \<^verbatim>\<open>OnPlayerLeaveGame\<close>, whenever
  the call returns, what it added to the log ends with the hook invocation if it has one,
  and nothing follows a hook invocation: the registry write, the emits of the manager and
  all callbacks they reach come before the protected hook.
\<close>

theorem manager_update_precedes_hook_except_leave:
  assumes "\<not> is_leave e" and "internal U e w = Some (Inr w')"
  shows "\<exists>delta. trace w' = trace w @ delta \<and> hook_last delta
           \<and> (delta = [] \<or> is_hook (last delta))"
proof (cases e)
  case OngoingGlobal
  with assms(2) obtain w1 where "emit U Mode ''OngoingGlobal'' [] w = Some w1"
    and "w' = run_hook U ''OngoingGlobal'' [] w1"
    by (auto split: option.splits)
  then show ?thesis using dispatch_hook_last by blast
next
  case (OngoingPlayer p)
  show ?thesis
  proof (cases "playerManager w \<and> get w p \<noteq> None")
    case False
    with assms(2) OngoingPlayer have "w' = w"
      by (auto simp: lp_def split: if_splits)
    then show ?thesis using nothing_logged by simp
  next
    case True
    then obtain a where a: "get w p = Some a" by blast
    with True assms(2) OngoingPlayer obtain w1 where
      "emit U (LogicalPlayer a) ''OngoingPlayer'' [] w = Some w1"
      and "w' = run_hook U ''OngoingPlayer'' [LP a] w1"
      by (auto simp: lp_def tick_def split: option.splits)
    then show ?thesis using dispatch_hook_last by blast
  qed
next
  case (OnPlayerJoinGame p)
  let ?w0 = "if \<not> playerManager w then createPlayerManager w else w"
  have t0: "trace ?w0 = trace w" by (simp add: createPlayerManager_def)
  from assms(2) OnPlayerJoinGame obtain B w1 where
    "addPlayer U p ?w0 = Some (B, w1)"
    and "w' = run_hook U ''OnPlayerJoinGame'' [LP B] w1"
    by (auto simp: Let_def split: option.splits)
  with join_hook_last [of U p ?w0 B w1 "''OnPlayerJoinGame''" "[LP B]"] t0
  show ?thesis by simp
next
  case (OnPlayerLeaveGame n)
  with assms(1) show ?thesis by simp
next
  case (GlobalEvent name args)
  with assms(2) have "w' = run_hook U name args w" by simp
  then show ?thesis using hook_only by blast
next
  case (PlayerEvent name p args)
  show ?thesis
  proof (cases "get w p")
    case None
    with assms(2) PlayerEvent have "w' = w"
      by (auto simp: lp_def split: if_splits)
    then show ?thesis using nothing_logged by simp
  next
    case (Some a)
    with assms(2) PlayerEvent obtain w1 where
      "emit U (LogicalPlayer a) name args w = Some w1"
      and "w' = run_hook U name (LP a # args) w1"
      by (auto simp: lp_def forward_def split: option.splits if_splits)
    then show ?thesis using dispatch_hook_last by blast
  qed
next
  case (TwoPlayerEvent name p q args)
  show ?thesis
  proof (cases "get w p")
    case None
    with assms(2) TwoPlayerEvent have "w' = w"
      by (auto simp: lp_def split: if_splits)
    then show ?thesis using nothing_logged by simp
  next
    case (Some a)
    with assms(2) TwoPlayerEvent obtain w1 where
      "emit U (LogicalPlayer a) name (opt_val (get w q) # args) w = Some w1"
      and "w' = run_hook U name (LP a # opt_val (get w q) # args) w1"
      by (auto simp: lp_def forward_def split: option.splits if_splits)
    then show ?thesis using dispatch_hook_last by blast
  qed
qed

theorem manager_update_precedes_hook_except_leave_witness:
  "\<not> is_leave (OnPlayerDeployed (Player 7 True))
   \<and> (\<exists>w'. internal example_code (OnPlayerDeployed (Player 7 True)) example_world = Some (Inr w')
        \<and> trace w' = [Emit (LogicalPlayer 0) ''OnPlayerDeployed'' [],
                       Callback (LogicalPlayer 0) 27 ''OnPlayerDeployed'' [],
                       Hook ''OnPlayerDeployed'' [LP 0]]
        \<and> hook_last (trace w'))"
proof -
  have nl: "\<not> is_leave (OnPlayerDeployed (Player 7 True))"
    by (simp add: OnPlayerDeployed_def)
  have ev: "map_option (map_sum id trace)
              (internal example_code (OnPlayerDeployed (Player 7 True)) example_world)
            = Some (Inr [Emit (LogicalPlayer 0) ''OnPlayerDeployed'' [],
                         Callback (LogicalPlayer 0) 27 ''OnPlayerDeployed'' [],
                         Hook ''OnPlayerDeployed'' [LP 0]])"
    by (simp add: OnPlayerDeployed_def lp_def get_def example_world_def forward_def emit_def
          log_def emit_loop.simps array_at_def invoke_def example_code_def run_actions_def
          run_hook_def)
  from returned_with [OF ev]
  obtain w' where r: "internal example_code (OnPlayerDeployed (Player 7 True)) example_world
        = Some (Inr w')"
    and t: "trace w' = [Emit (LogicalPlayer 0) ''OnPlayerDeployed'' [],
                       Callback (LogicalPlayer 0) 27 ''OnPlayerDeployed'' [],
                       Hook ''OnPlayerDeployed'' [LP 0]]"
    by blast
  from manager_update_precedes_hook_except_leave [OF nl r]
  have "hook_last (trace w')" by (simp add: example_world_def)
  with nl r t show ?thesis by blast
qed

text \<open>
  Claim C4 as stated fails on the leave event: \<^verbatim>\<open>OnPlayerLeaveGame\<close> both invokes a hook
  and updates the registry, and the hook comes first; the detach and the delete follow it
  in the log.
\<close>

theorem leave_updates_registry_after_hook:
  "map_option (map_sum id trace) (internal example_code (OnPlayerLeaveGame 7) example_world)
     = Some (Inr [Hook ''OnPlayerLeaveGame'' [LP 0], Detach 0, MapDelete 7])
   \<and> \<not> hook_last [Hook ''OnPlayerLeaveGame'' [LP 0], Detach 0, MapDelete 7]"
  by (simp add: lpId_def getById_def example_world_def run_hook_def log_def example_code_def
        run_actions_def addListener_def array_at_def removePlayer_def new_array_def
        Map_delete_def hook_last_def)

section \<open>Sequences of joins\<close>


lemma addPlayers_sound:
  assumes "distinct (map GetObjId ps)"
    and "list_all (\<lambda>p. getById w (GetObjId p) = None) ps"
    and "addPlayers U ps w = Some (lps, w')"
  shows "players w' = players w @ zip (map GetObjId ps) lps
       \<and> lps = [length (objects w) ..< length (objects w) + length ps]
       \<and> length (objects w') = length (objects w) + length ps"
  using assms
proof (induction ps arbitrary: w lps)
  case Nil
  then show ?case by simp
next
  case (Cons p ps)
  from Cons.prems(3) obtain x w1 xs where
    a: "addPlayer U p w = Some (x, w1)"
    and r: "addPlayers U ps w1 = Some (xs, w')"
    and lps: "lps = x # xs"
    by (auto split: option.splits)
  from Cons.prems(2) have absent: "getById w (GetObjId p) = None" by simp
  note s = addPlayer_sound [OF absent a]
  have rest_absent: "list_all (\<lambda>q. getById w1 (GetObjId q) = None) ps"
    using Cons.prems(1,2) s(2)
    by (auto simp: list_all_iff getById_def map_add_def image_iff)
  from Cons.prems(1) have d: "distinct (map GetObjId ps)" by simp
  have up: "[length (objects w) ..< length (objects w) + length (p # ps)]
              = length (objects w) # [Suc (length (objects w)) ..< Suc (length (objects w)) + length ps]"
    by (simp del: upt_Suc add: upt_conv_Cons)
  from Cons.IH [OF d rest_absent r] s(1,2,4) lps show ?case
    unfolding up by (simp del: upt_Suc)
qed

lemma addPlayers_total:
  assumes "unsubscribe_only U ''OnPlayerJoinGame''"
  shows "\<exists>lps w'. addPlayers U ps w = Some (lps, w')"
proof (induction ps arbitrary: w)
  case Nil
  show ?case by simp
next
  case (Cons p ps)
  from addPlayer_total [OF assms, of p w] obtain x w1 where
    a: "addPlayer U p w = Some (x, w1)" by blast
  from Cons.IH [of w1] obtain xs w' where "addPlayers U ps w1 = Some (xs, w')" by blast
  with a show ?case by simp
qed

text \<open>
  Claim C3. Starting from an empty registry, whenever a sequence of joins with pairwise
  distinct ids returns, the registry holds exactly one entry per id, in join order, whose
  value is the logical player that the join of that id returned; these logical players
  are pairwise distinct objects; \<^verbatim>\<open>getById\<close> of each id is that object, and a further
  \<^verbatim>\<open>addPlayer\<close> with the same handle returns that object and leaves the world unchanged.
  The sequence does return when the callbacks of \<^verbatim>\<open>OnPlayerJoinGame\<close> do not subscribe.
\<close>

theorem one_logical_player_per_id:
  assumes "players w = []" and "distinct (map GetObjId ps)"
  shows "(\<forall>lps w'. addPlayers U ps w = Some (lps, w') \<longrightarrow>
            map fst (players w') = map GetObjId ps
          \<and> map snd (players w') = lps
          \<and> length lps = length ps
          \<and> distinct lps
          \<and> (\<forall>i < length ps.
                getById w' (GetObjId (ps ! i)) = Some (lps ! i)
              \<and> addPlayer U (ps ! i) w' = Some (lps ! i, w')))
       \<and> (unsubscribe_only U ''OnPlayerJoinGame'' \<longrightarrow>
            (\<exists>lps w'. addPlayers U ps w = Some (lps, w')))"
proof -
  have "map fst (players w') = map GetObjId ps
          \<and> map snd (players w') = lps
          \<and> length lps = length ps
          \<and> distinct lps
          \<and> (\<forall>i < length ps.
                getById w' (GetObjId (ps ! i)) = Some (lps ! i)
              \<and> addPlayer U (ps ! i) w' = Some (lps ! i, w'))"
    if ret: "addPlayers U ps w = Some (lps, w')" for lps w'
  proof -
    from assms(1) have absent: "list_all (\<lambda>p. getById w (GetObjId p) = None) ps"
      by (simp add: list_all_iff getById_def)
    from addPlayers_sound [OF assms(2) absent ret] assms(1)
    have reg: "players w' = zip (map GetObjId ps) lps"
      and lps: "lps = [length (objects w) ..< length (objects w) + length ps]"
      by simp_all
    from lps have len: "length lps = length ps" by simp
    from lps have dis: "distinct lps" by simp
    from reg len have k: "map fst (players w') = map GetObjId ps" by simp
    from reg len have v: "map snd (players w') = lps" by simp
    have "getById w' (GetObjId (ps ! i)) = Some (lps ! i)
           \<and> addPlayer U (ps ! i) w' = Some (lps ! i, w')" if i: "i < length ps" for i
    proof -
      from map_of_zip_nth [of "map GetObjId ps" lps i] len assms(2) i reg
      have "getById w' (GetObjId (ps ! i)) = Some (lps ! i)"
        by (simp add: getById_def)
      then show ?thesis by (simp add: addPlayer_def getById_def)
    qed
    with k v len dis show ?thesis by blast
  qed
  moreover have "\<exists>lps w'. addPlayers U ps w = Some (lps, w')"
    if "unsubscribe_only U ''OnPlayerJoinGame''"
    using that by (rule addPlayers_total)
  ultimately show ?thesis by blast
qed

lemma example_joins:
  "map_option (\<lambda>(lps, w). (lps, players w, trace w))
     (addPlayers example_code [Player 7 True, Player 8 True]
        (createPlayerManager new_mode))
   = Some ([0, 1], [(7, 0), (8, 1)],
           [MapSet 7 0, MapSet 8 1, Emit (LogicalPlayer 0) ''OnPlayerJoinGame'' [LP 1],
            Callback (LogicalPlayer 0) 27 ''OnPlayerJoinGame'' [LP 1]])"
  by (simp add: createPlayerManager_def new_mode_def addPlayer_def createPlayer_def
        new_array_def Map_set_def log_def emit_def emit_loop.simps array_at_def invoke_def
        example_code_def run_actions_def)

theorem one_logical_player_per_id_witness:
  "players (createPlayerManager new_mode) = []
   \<and> distinct (map GetObjId [Player 7 True, Player 8 True])
   \<and> (\<exists>w'. addPlayers example_code [Player 7 True, Player 8 True]
               (createPlayerManager new_mode) = Some ([0, 1], w')
          \<and> players w' = [(7, 0), (8, 1)]
          \<and> getById w' 7 = Some 0 \<and> getById w' 8 = Some 1
          \<and> addPlayer example_code (Player 8 True) w' = Some (1, w'))"
proof -
  have e: "players (createPlayerManager new_mode) = []"
    by (simp add: createPlayerManager_def)
  have d: "distinct (map GetObjId [Player 7 True, Player 8 True])" by simp
  note inst = one_logical_player_per_id [OF e d, of example_code]
  from example_joins obtain w' where
    r: "addPlayers example_code [Player 7 True, Player 8 True]
          (createPlayerManager new_mode) = Some ([0, 1], w')"
    and p: "players w' = [(7, 0), (8, 1)]"
    by (auto simp: map_option_case split: option.splits)
  from inst r have q: "getById w' (GetObjId ([Player 7 True, Player 8 True] ! i)) = Some ([0, 1] ! i)
       \<and> addPlayer example_code ([Player 7 True, Player 8 True] ! i) w' = Some ([0, 1] ! i, w')"
    if "i < 2" for i
    using that by auto
  from q [of 0] q [of 1] have "getById w' 7 = Some 0" and "getById w' 8 = Some 1"
    and "addPlayer example_code (Player 8 True) w' = Some (1, w')"
    by simp_all
  with e d r p show ?thesis by blast
qed

section \<open>Well-formed worlds\<close>


lemma wf_world_log [simp]: "wf_world (log x w) = wf_world w"
  by (simp add: wf_world_def allPlayers_def)

lemma wf_new_mode: "wf_world new_mode"
  by (simp add: wf_world_def new_mode_def allPlayers_def)

lemma wf_createPlayerManager: "wf_world w \<Longrightarrow> wf_world (createPlayerManager w)"
  by (simp add: wf_world_def createPlayerManager_def allPlayers_def)

lemma wf_run_action: "wf_world w \<Longrightarrow> wf_world (run_action act w)"
proof (cases act)
  case (CallAddListener t l)
  assume "wf_world w"
  with CallAddListener show ?thesis
    by (cases t) (auto simp: addListener_def wf_world_def allPlayers_def split: option.splits)
next
  case (CallRemoveListener t l)
  assume wf: "wf_world w"
  show ?thesis
  proof (cases t)
    case Mode
    with wf CallRemoveListener show ?thesis
      by (auto simp: removeListener_def new_array_def wf_world_def allPlayers_def list_all_iff)
  next
    case (LogicalPlayer p)
    with wf CallRemoveListener show ?thesis
      by (auto simp: removeListener_def new_array_def wf_world_def allPlayers_def list_all_iff
            set_conv_nth nth_list_update split: if_splits)
  qed
qed

lemma wf_run_actions: "wf_world w \<Longrightarrow> wf_world (run_actions acts w)"
  unfolding run_actions_def
  by (induction acts arbitrary: w) (simp_all add: wf_run_action)

lemma wf_run_hook: "wf_world w \<Longrightarrow> wf_world (run_hook U name args w)"
  by (simp add: run_hook_def wf_run_actions)

lemma wf_invoke: "wf_world w \<Longrightarrow> wf_world (invoke U t l ev args w)"
  by (simp add: invoke_def wf_run_actions split: option.splits)

lemma wf_emit_loop:
  assumes ret: "emit_loop U t ev args a i w = Some w'" and wf: "wf_world w"
  shows "wf_world w'"
proof -
  let ?Q = "\<lambda>(U::usercode) (t::target) (ev::string) (args::jsval list) (a::aref) (i::nat)
              (w::world) (w'::world). wf_world w \<longrightarrow> wf_world w'"
  have "?Q U t ev args a i w w'"
  proof (rule emit_loop.raw_induct [where P = ?Q, OF _ ret])
    fix f U t ev args a i w w'
    assume IH: "\<And>U t ev args a i w w'. f U t ev args a i w = Some w' \<Longrightarrow> ?Q U t ev args a i w w'"
      and body: "(if i < length (array_at w a)
                  then f U t ev args a (i + 1) (invoke U t (array_at w a ! i) ev args w)
                  else Some w) = Some w'"
    show "?Q U t ev args a i w w'"
    proof (cases "i < length (array_at w a)")
      case False
      with body show ?thesis by simp
    next
      case True
      with body have "f U t ev args a (i + 1) (invoke U t (array_at w a ! i) ev args w) = Some w'"
        by simp
      from IH [OF this] show ?thesis by (simp add: wf_invoke)
    qed
  qed
  with wf show ?thesis by simp
qed

lemma wf_emit:
  assumes "emit U t ev args w = Some w'" and "wf_world w"
  shows "wf_world w'"
proof (cases "listeners_ref w t")
  case None
  with assms show ?thesis by (auto simp: emit_def)
next
  case (Some a)
  with assms(1) have "emit_loop U t ev args a 0 (log (Emit t ev args) w) = Some w'"
    by (simp add: emit_def)
  from wf_emit_loop [OF this] assms(2) show ?thesis by simp
qed

lemma wf_notify_others:
  "notify_others U B others w = Some w' \<Longrightarrow> wf_world w \<Longrightarrow> wf_world w'"
proof (induction others arbitrary: w)
  case Nil
  then show ?case by simp
next
  case (Cons other rest)
  show ?case
  proof (cases "other = B")
    case True
    with Cons show ?thesis by simp
  next
    case False
    with Cons.prems(1) obtain w1 where
      e: "emit U (LogicalPlayer other) ''OnPlayerJoinGame'' [LP B] w = Some w1"
      and n: "notify_others U B rest w1 = Some w'"
      by (auto split: option.splits)
    from Cons.IH [OF n wf_emit [OF e Cons.prems(2)]] show ?thesis .
  qed
qed

lemma wf_addPlayer:
  assumes "addPlayer U b w = Some (B, w')" and "wf_world w"
  shows "wf_world w'"
proof (cases "getById w (GetObjId b)")
  case (Some x)
  with assms show ?thesis by (simp add: addPlayer_def getById_def)
next
  case None
  let ?B = "length (objects w)"
  let ?w2 = "log (MapSet (GetObjId b) ?B)
             (w\<lparr>arrays := arrays w @ [constructor_listeners U b],
                objects := objects w @ [\<lparr>player = b, listeners = length (arrays w)\<rparr>],
                players := players w @ [(GetObjId b, ?B)]\<rparr>)"
  from assms(1) addPlayer_new [OF None, of U]
  have n: "notify_others U ?B (allPlayers w @ [?B]) ?w2 = Some w'" by auto
  from None have "GetObjId b \<notin> fst ` set (players w)"
    by (simp add: getById_def map_of_eq_None_iff)
  with assms(2) have "wf_world ?w2"
    by (auto simp: wf_world_def allPlayers_def list_all_iff)
  from wf_notify_others [OF n this] show ?thesis .
qed

lemma Map_delete_values: "set (Map_delete n m) \<subseteq> set m"
  by (auto simp: Map_delete_def)

lemma Map_delete_distinct: "distinct (map fst m) \<Longrightarrow> distinct (map fst (Map_delete n m))"
  by (simp add: Map_delete_def distinct_map_filter)

lemma wf_removePlayer:
  assumes wf: "wf_world w"
  shows "wf_world (removePlayer n w)"
proof (cases "map_of (players w) n")
  case None
  with wf Map_delete_values [of n "players w"] Map_delete_distinct [of "players w" n]
  show ?thesis
    by (auto simp: removePlayer_def wf_world_def allPlayers_def list_all_iff)
next
  case (Some p)
  let ?objs = "(objects w)[p := (objects w ! p)\<lparr>listeners := length (arrays w)\<rparr>]"
  have eq: "removePlayer n w =
      log (MapDelete n) (log (Detach p)
        (w\<lparr>arrays := arrays w @ [[]], objects := ?objs\<rparr>)
          \<lparr>players := Map_delete n (players w)\<rparr>)"
    using Some by (simp add: removePlayer_def new_array_def log_def)
  have objs: "list_all (\<lambda>obj. listeners obj < Suc (length (arrays w))) ?objs"
  proof -
    have "set ?objs \<subseteq> insert ((objects w ! p)\<lparr>listeners := length (arrays w)\<rparr>) (set (objects w))"
      by (rule set_update_subset_insert)
    with wf show ?thesis
      by (auto simp: wf_world_def list_all_iff less_Suc_eq)
  qed
  from wf Map_delete_values [of n "players w"] Map_delete_distinct [of "players w" n] objs
  show ?thesis unfolding eq
    by (auto simp: wf_world_def allPlayers_def list_all_iff)
qed

text \<open>The worlds a mode can reach are well-formed: a new mode is, and every entry point
  that returns keeps it so.\<close>

lemma wf_internal:
  assumes "internal U e w = Some (Inr w')" and "wf_world w"
  shows "wf_world w'"
proof (cases e)
  case OngoingGlobal
  with assms(1) obtain w1 where "emit U Mode ''OngoingGlobal'' [] w = Some w1"
    and "w' = run_hook U ''OngoingGlobal'' [] w1"
    by (auto split: option.splits)
  with assms(2) show ?thesis by (simp add: wf_run_hook wf_emit)
next
  case (OngoingPlayer p)
  with assms show ?thesis
    by (auto simp: lp_def tick_def wf_run_hook wf_emit split: option.splits if_splits)
next
  case (OnPlayerJoinGame p)
  let ?w0 = "if \<not> playerManager w then createPlayerManager w else w"
  from assms(2) have wf0: "wf_world ?w0" by (simp add: wf_createPlayerManager)
  from assms(1) OnPlayerJoinGame obtain B w1 where
    "addPlayer U p ?w0 = Some (B, w1)"
    and "w' = run_hook U ''OnPlayerJoinGame'' [LP B] w1"
    by (auto simp: Let_def split: option.splits)
  with wf_addPlayer [of U p ?w0 B w1] wf0 show ?thesis by (simp add: wf_run_hook)
next
  case (OnPlayerLeaveGame n)
  with assms show ?thesis
    by (auto simp: lpId_def wf_removePlayer wf_run_hook split: option.splits if_splits)
next
  case (GlobalEvent name args)
  with assms show ?thesis by (auto simp: wf_run_hook)
next
  case (PlayerEvent name p args)
  with assms show ?thesis
    by (auto simp: lp_def forward_def wf_run_hook wf_emit split: option.splits if_splits)
next
  case (TwoPlayerEvent name p q args)
  with assms show ?thesis
    by (auto simp: lp_def forward_def wf_run_hook wf_emit split: option.splits if_splits)
qed

section \<open>Subscribing during an emit\<close>


text \<open>
  A subscription made during an emit is seen by that emit, because \<^verbatim>\<open>push\<close> changes the
  array the loop iterates: an observer that subscribes itself again on every invocation
  keeps the loop running for ever.
\<close>

lemma resubscribing_step:
  assumes "mode_listeners w = 0" and "arrays w = [replicate n 1]" and "i < n"
  shows "mode_listeners (invoke resubscribing_code Mode (array_at w 0 ! i) ''OngoingGlobal'' [] w) = 0
       \<and> (\<exists>m. arrays (invoke resubscribing_code Mode (array_at w 0 ! i) ''OngoingGlobal'' [] w)
                 = [replicate m 1] \<and> i + 1 < m)"
proof -
  let ?w1 = "invoke resubscribing_code Mode (array_at w 0 ! i) ''OngoingGlobal'' [] w"
  from assms have "mode_listeners ?w1 = 0" and "arrays ?w1 = [replicate n 1 @ [1]]"
    by (simp_all add: invoke_def resubscribing_code_def array_at_def run_actions_def
          addListener_def log_def)
  moreover have "replicate n (1::nat) @ [1] = replicate (Suc n) 1"
    by (simp add: replicate_append_same)
  ultimately have "mode_listeners ?w1 = 0"
    and "arrays ?w1 = [replicate (Suc n) 1] \<and> i + 1 < Suc n"
    using assms(3) by simp_all
  then show ?thesis by blast
qed

lemma resubscribing_emit_loop_diverges:
  assumes "mode_listeners w = 0" and "arrays w = [replicate n 1]" and "i < n"
  shows "emit_loop resubscribing_code Mode ''OngoingGlobal'' [] 0 i w = None"
proof (rule ccontr)
  assume "emit_loop resubscribing_code Mode ''OngoingGlobal'' [] 0 i w \<noteq> None"
  then obtain w' where ret: "emit_loop resubscribing_code Mode ''OngoingGlobal'' [] 0 i w = Some w'"
    by blast
  let ?Q = "\<lambda>(U::usercode) (t::target) (ev::string) (args::jsval list) (a::aref) (i::nat)
              (w::world) (w'::world).
       \<not> (U = resubscribing_code \<and> t = Mode \<and> ev = ''OngoingGlobal'' \<and> args = [] \<and> a = 0
          \<and> mode_listeners w = 0 \<and> (\<exists>n. arrays w = [replicate n 1] \<and> i < n))"
  have "?Q resubscribing_code Mode ''OngoingGlobal'' [] 0 i w w'"
  proof (rule emit_loop.raw_induct [where P = ?Q, OF _ ret])
    fix f U t ev args a i w w'
    assume IH: "\<And>U t ev args a i w w'. f U t ev args a i w = Some w' \<Longrightarrow> ?Q U t ev args a i w w'"
      and body: "(if i < length (array_at w a)
                  then f U t ev args a (i + 1) (invoke U t (array_at w a ! i) ev args w)
                  else Some w) = Some w'"
    show "?Q U t ev args a i w w'"
    proof
      assume inv: "U = resubscribing_code \<and> t = Mode \<and> ev = ''OngoingGlobal'' \<and> args = [] \<and> a = 0
          \<and> mode_listeners w = 0 \<and> (\<exists>n. arrays w = [replicate n 1] \<and> i < n)"
      then obtain n where n: "arrays w = [replicate n 1]" "i < n" by blast
      from n have lt: "i < length (array_at w 0)" by (simp add: array_at_def)
      let ?w1 = "invoke resubscribing_code Mode (array_at w 0 ! i) ''OngoingGlobal'' [] w"
      from body inv lt
      have "f resubscribing_code Mode ''OngoingGlobal'' [] 0 (i + 1) ?w1 = Some w'" by simp
      note no = IH [OF this]
      from inv have "mode_listeners w = 0" by blast
      from resubscribing_step [OF this n] no show False by simp
    qed
  qed
  with assms show False by blast
qed

lemma resubscribing_tick_never_returns:
  "internal resubscribing_code OngoingGlobal (new_mode\<lparr>arrays := [[1]]\<rparr>) = None"
proof -
  have "emit_loop resubscribing_code Mode ''OngoingGlobal'' [] 0 0
          (log (Emit Mode ''OngoingGlobal'' []) (new_mode\<lparr>arrays := [[1]]\<rparr>)) = None"
    by (rule resubscribing_emit_loop_diverges [where n = 1]) (simp_all add: new_mode_def)
  then show ?thesis by (simp add: emit_def new_mode_def)
qed

end
